theory Spec2Isabelle
  imports Main "HOL-Library.Word" "HOL-Library.List_Lexorder" "HOL-Library.Char_ord"
begin

chapter \<open>Typo.js: lookup, paged index and suggestions\<close>

text \<open>
  A shallow embedding of \<open>src/typo/typo.js\<close>: the BloomFilter and the LRUCache, the
  query functions \<open>checkExact\<close>, \<open>hasFlag\<close>, \<open>check\<close> and \<open>suggest\<close> of a Typo object
  for both of its backends, the export of an in-memory dictionary and its import as a
  pre-calculated one.

  Conventions of the model.
  \<^item> A JavaScript string is a \<open>string\<close>; a character stands for one code unit. The case
    mappings \<open>toUpperCase\<close> and \<open>toLowerCase\<close> and the whitespace class of \<open>trim\<close> are
    those of JavaScript on ASCII text (with the no-break space); characters beyond
    ASCII are left alone by the case mappings, which JavaScript does not do. The
    general theorems about \<open>check\<close>, \<open>checkExact\<close> and the suggestions therefore assume
    that the queried word (and for suggestions the alphabet) is \<open>ascii\<close>.
  \<^item> The comparison \<open>word.length >= flags.COMPOUNDMIN\<close> is \<open>lengthAtLeast\<close>. It reads
    the flag as a decimal numeral; the other spellings of a number that JavaScript
    accepts are not modelled, and the general theorems assume \<open>decimalMinimum\<close>.
  \<^item> Every function that can throw returns a sum: \<open>Inl\<close> the error, \<open>Inr\<close> the value
    together with the Typo object as the call leaves it. What an object looks like after
    a throw is not modelled.
  \<^item> A Typo object is the record \<open>typo\<close>. The table of affix rules is left out: no query
    reads it. Fields that are null until a pre-calculated dictionary is loaded are
    options where a query dereferences them.
  \<^item> Objects used as string-keyed tables (\<open>dictionaryTable\<close>, the weights of the
    suggestion candidates, the memo) are association lists of their own properties in
    insertion order, or maps where only lookups matter; \<open>ownKeys\<close> gives the order in
    which \<open>for ... in\<close> visits the keys. A lookup with a key that is not an own property
    but names a property of \<open>Object.prototype\<close> finds the inherited value. \<open>checkExact\<close>
    has this case (the word is rejected); the weight tables and the memo of \<open>suggest\<close>
    do not, and the general theorems about the ranking and the memo assume that no
    such name is a correct word, an edit of the queried word or a memoized word.
  \<^item> \<open>replaceFirst\<close> is \<open>String.prototype.replace\<close> with a string pattern: the first
    occurrence is replaced and the patterns \<open>$$\<close>, \<open>$&\<close> and the two that stand for the
    text before and after the match are expanded.
  \<^item> The files of a pre-calculated dictionary are a map from paths to parsed JSON
    values; a missing file is a \<open>SyntaxError\<close> of \<open>JSON.parse\<close>, as \<open>_readFile\<close> returns
    the empty string for it.
  \<^item> A compiled compound rule is a \<open>regexp\<close>: a sequence of atoms (a character, or a
    group of alternative words), each taken once, optionally, or any number of times,
    matched against the whole word without regard to case. \<open>new_RegExp\<close> covers the
    expressions that \<open>COMPOUNDRULE\<close> lines give rise to and returns \<open>None\<close> for any other
    use of a special character.
  \<^item> \<open>localeCompare\<close> depends on the host's locale and is a parameter of \<open>suggest\<close>.
  \<^item> Source names that start with an underscore lose it (\<open>_loadPartition\<close> is
    \<open>loadPartition\<close>); names that clash with the library carry a suffix.
\<close>

unbundle bit_operations_syntax

section \<open>JavaScript strings\<close>

definition code_unit :: "char \<Rightarrow> nat" where
  "code_unit c = of_char c"

definition toUpperChar :: "char \<Rightarrow> char" where
  "toUpperChar c =
     (if 97 \<le> code_unit c \<and> code_unit c \<le> 122 then char_of (code_unit c - 32) else c)"

definition toLowerChar :: "char \<Rightarrow> char" where
  "toLowerChar c =
     (if 65 \<le> code_unit c \<and> code_unit c \<le> 90 then char_of (code_unit c + 32) else c)"

definition toUpperCase :: "string \<Rightarrow> string" where
  "toUpperCase s = map toUpperChar s"

definition toLowerCase :: "string \<Rightarrow> string" where
  "toLowerCase s = map toLowerChar s"

definition isSpace :: "char \<Rightarrow> bool" where
  "isSpace c =
     (code_unit c = 9 \<or> code_unit c = 10 \<or> code_unit c = 11 \<or> code_unit c = 12 \<or>
      code_unit c = 13 \<or> code_unit c = 32 \<or> code_unit c = 160)"

definition trim :: "string \<Rightarrow> string" where
  "trim s = rev (dropWhile isSpace (rev (dropWhile isSpace s)))"

definition charAt0 :: "string \<Rightarrow> string" where
  "charAt0 s = (case s of [] \<Rightarrow> ''undefined'' | c # _ \<Rightarrow> [c])"

definition compareStrings :: "string \<Rightarrow> string \<Rightarrow> int" where
  "compareStrings a b = (if a < b then - 1 else if b < a then 1 else 0)"

definition isAscii :: "char \<Rightarrow> bool" where
  "isAscii c = (code_unit c < 128)"

definition ascii :: "string \<Rightarrow> bool" where
  "ascii s = list_all isAscii s"

datatype js_error = Thrown string | UnsupportedVersion int | TypeError | SyntaxError

datatype jsval = Undefined | Str string | Num int

fun digitsValue :: "nat \<Rightarrow> string \<Rightarrow> nat option" where
  "digitsValue acc [] = Some acc"
| "digitsValue acc (c # cs) =
     (if 48 \<le> code_unit c \<and> code_unit c \<le> 57
      then digitsValue (acc * 10 + (code_unit c - 48)) cs else None)"

fun lengthAtLeast :: "nat \<Rightarrow> jsval \<Rightarrow> bool" where
  "lengthAtLeast n Undefined = False"
| "lengthAtLeast n (Num m) = (m \<le> int n)"
| "lengthAtLeast n (Str s) = (case digitsValue 0 s of None \<Rightarrow> False | Some m \<Rightarrow> m \<le> n)"

section \<open>BloomFilter\<close>

record BloomFilter =
  size_bf :: nat
  numHashes :: nat
  bits :: "8 word list"

definition new_BloomFilter :: "nat \<Rightarrow> nat \<Rightarrow> BloomFilter" where
  "new_BloomFilter sz nh =
     \<lparr>size_bf = sz, numHashes = (if nh = 0 then 3 else nh), bits = replicate ((sz + 7) div 8) 0\<rparr>"

definition hash_bf :: "string \<Rightarrow> nat \<Rightarrow> nat" where
  "hash_bf str seed =
     foldl (\<lambda>hash c. ((hash * 32 + hash) + code_unit c) mod 2 ^ 32) (5381 + seed * 1000) str"

definition add_probe :: "string \<Rightarrow> BloomFilter \<Rightarrow> nat \<Rightarrow> BloomFilter" where
  "add_probe word bf i =
     (if size_bf bf = 0 then bf
      else let hash = hash_bf word i;
               bitIndex = hash mod size_bf bf;
               byteIndex = bitIndex div 8;
               bitOffset = bitIndex mod 8
           in if byteIndex < length (bits bf)
              then bf\<lparr>bits := (bits bf)[byteIndex := (bits bf ! byteIndex) OR push_bit bitOffset 1]\<rparr>
              else bf)"

definition add_bf :: "BloomFilter \<Rightarrow> string \<Rightarrow> BloomFilter" where
  "add_bf bf word = foldl (add_probe word) bf [0..<numHashes bf]"

definition test_probe :: "string \<Rightarrow> BloomFilter \<Rightarrow> nat \<Rightarrow> bool" where
  "test_probe word bf i =
     (if size_bf bf = 0 then False
      else let hash = hash_bf word i;
               bitIndex = hash mod size_bf bf;
               byteIndex = bitIndex div 8;
               bitOffset = bitIndex mod 8
           in if byteIndex < length (bits bf)
              then (bits bf ! byteIndex) AND push_bit bitOffset 1 \<noteq> 0
              else False)"

definition mightContain :: "BloomFilter \<Rightarrow> string \<Rightarrow> bool" where
  "mightContain bf word = list_all (test_probe word bf) [0..<numHashes bf]"

section \<open>LRUCache\<close>

record ('k, 'v) LRUCache =
  maxSize :: nat
  cache :: "('k \<times> 'v) list"

definition new_LRUCache :: "nat \<Rightarrow> ('k, 'v) LRUCache" where
  "new_LRUCache n = \<lparr>maxSize = n, cache = []\<rparr>"

definition map_delete :: "'k \<Rightarrow> ('k \<times> 'v) list \<Rightarrow> ('k \<times> 'v) list" where
  "map_delete key entries = filter (\<lambda>e. fst e \<noteq> key) entries"

definition has_lru :: "('k, 'v) LRUCache \<Rightarrow> 'k \<Rightarrow> bool" where
  "has_lru c key = (map_of (cache c) key \<noteq> None)"

definition get_lru :: "('k, 'v) LRUCache \<Rightarrow> 'k \<Rightarrow> 'v option \<times> ('k, 'v) LRUCache" where
  "get_lru c key =
     (case map_of (cache c) key of
        None \<Rightarrow> (None, c)
      | Some val \<Rightarrow> (Some val, c\<lparr>cache := map_delete key (cache c) @ [(key, val)]\<rparr>))"

definition set_lru :: "('k, 'v) LRUCache \<Rightarrow> 'k \<Rightarrow> 'v \<Rightarrow> ('k, 'v) LRUCache" where
  "set_lru c key val =
     (let c1 = (if has_lru c key then map_delete key (cache c) else cache c);
          c2 = c1 @ [(key, val)]
      in if length c2 > maxSize c
         then (let oldestKey = fst (hd c2) in c\<lparr>cache := map_delete oldestKey c2\<rparr>)
         else c\<lparr>cache := c2\<rparr>)"

definition add_lru :: "('k, bool) LRUCache \<Rightarrow> 'k \<Rightarrow> ('k, bool) LRUCache" where
  "add_lru c key = set_lru c key True"

datatype ('k, 'v) cache_op = Get 'k | Set 'k 'v

fun apply_op :: "('k, 'v) LRUCache \<Rightarrow> ('k, 'v) cache_op \<Rightarrow> ('k, 'v) LRUCache" where
  "apply_op c (Get key) = snd (get_lru c key)"
| "apply_op c (Set key val) = set_lru c key val"

fun touches :: "('k, 'v) cache_op \<Rightarrow> 'k" where
  "touches (Get key) = key"
| "touches (Set key val) = key"

fun last_use_rev :: "('k, 'v) cache_op list \<Rightarrow> 'k \<Rightarrow> nat" where
  "last_use_rev [] key = 0"
| "last_use_rev (op # earlier) key =
     (if touches op = key then Suc (length earlier) else last_use_rev earlier key)"

definition last_use :: "('k, 'v) cache_op list \<Rightarrow> 'k \<Rightarrow> nat" where
  "last_use ops key = last_use_rev (rev ops) key"

abbreviation keys_lru :: "('k, 'v) LRUCache \<Rightarrow> 'k list" where
  "keys_lru c \<equiv> map fst (cache c)"

definition lru_ordered :: "('k, 'v) cache_op list \<Rightarrow> ('k, 'v) LRUCache \<Rightarrow> bool" where
  "lru_ordered ops c =
     (distinct (keys_lru c) \<and>
      sorted_wrt (\<lambda>a b. last_use ops a < last_use ops b) (keys_lru c) \<and>
      list_all (\<lambda>k. 0 < last_use ops k) (keys_lru c))"

section \<open>Compound-rule matchers\<close>

datatype quantifier = Once | ZeroOrOne | ZeroOrMore

datatype atom = Literal char | Group "string list"

type_synonym regexp = "(atom \<times> quantifier) list"

fun atom_matches :: "atom \<Rightarrow> string \<Rightarrow> bool" where
  "atom_matches (Literal c) s = (case s of [x] \<Rightarrow> toUpperChar x = toUpperChar c | _ \<Rightarrow> False)"
| "atom_matches (Group ws) s = list_ex (\<lambda>w. toUpperCase w = toUpperCase s) ws"

function regexp_matches :: "regexp \<Rightarrow> string \<Rightarrow> bool" where
  "regexp_matches [] s = (s = [])"
| "regexp_matches ((a, Once) # rest) s =
     list_ex (\<lambda>i. atom_matches a (take i s) \<and> regexp_matches rest (drop i s)) [0..<Suc (length s)]"
| "regexp_matches ((a, ZeroOrOne) # rest) s =
     (regexp_matches rest s \<or>
      list_ex (\<lambda>i. atom_matches a (take i s) \<and> regexp_matches rest (drop i s)) [0..<Suc (length s)])"
| "regexp_matches ((a, ZeroOrMore) # rest) s =
     (regexp_matches rest s \<or>
      list_ex (\<lambda>i. atom_matches a (take i s) \<and> regexp_matches ((a, ZeroOrMore) # rest) (drop i s))
        [1..<Suc (length s)])"
  by pat_completeness auto
termination
  by (relation "measures [\<lambda>(r, s). length r, \<lambda>(r, s). length s]") auto

datatype token = Words "string list" | Raw char

definition regexSpecial :: "char \<Rightarrow> bool" where
  "regexSpecial c =
     (code_unit c \<in> set [92, 94, 36, 46, 124, 63, 42, 43, 40, 41, 91, 93, 123, 125, 47])"

definition expressionTokens :: "(string \<times> string list) list \<Rightarrow> string \<Rightarrow> token list" where
  "expressionTokens compoundRuleCodes ruleText =
     map (\<lambda>character. case map_of compoundRuleCodes [character] of
                         Some ws \<Rightarrow> Words ws
                       | None \<Rightarrow> Raw character) ruleText"

definition token_atom :: "token \<Rightarrow> atom option" where
  "token_atom t =
     (case t of
        Words ws \<Rightarrow> if list_ex (list_ex regexSpecial) ws then None else Some (Group ws)
      | Raw c \<Rightarrow> if regexSpecial c then None else Some (Literal c))"

fun new_RegExp :: "token list \<Rightarrow> regexp option" where
  "new_RegExp [] = Some []"
| "new_RegExp [t] = (case token_atom t of None \<Rightarrow> None | Some a \<Rightarrow> Some [(a, Once)])"
| "new_RegExp (t # Raw q # ts) =
     (case token_atom t of
        None \<Rightarrow> None
      | Some a \<Rightarrow>
          if q = CHR ''*'' \<or> q = CHR ''?'' then
            (case ts of
               Raw q' # _ \<Rightarrow>
                 if regexSpecial q' then None
                 else map_option ((#) (a, if q = CHR ''*'' then ZeroOrMore else ZeroOrOne)) (new_RegExp ts)
             | _ \<Rightarrow> map_option ((#) (a, if q = CHR ''*'' then ZeroOrMore else ZeroOrOne)) (new_RegExp ts))
          else map_option ((#) (a, Once)) (new_RegExp (Raw q # ts)))"
| "new_RegExp (t # Words ws # ts) =
     (case token_atom t of
        None \<Rightarrow> None
      | Some a \<Rightarrow> map_option ((#) (a, Once)) (new_RegExp (Words ws # ts)))"

definition compileCompoundRule :: "(string \<times> string list) list \<Rightarrow> string \<Rightarrow> regexp option" where
  "compileCompoundRule compoundRuleCodes ruleText =
     new_RegExp (expressionTokens compoundRuleCodes ruleText)"

section \<open>The Typo object\<close>

type_synonym ruleCodes = "string list list option"

record wordData =
  word_w :: string
  word_r :: ruleCodes

record partitionInfo =
  info_file :: string
  info_count :: nat

record partition =
  part_prefix :: string
  part_words :: "wordData list"

record memo =
  memo_suggestions :: "string list"
  memo_limit :: nat

record index_json =
  ix_version :: int
  ix_language :: string
  ix_totalWords :: nat
  ix_partitionCount :: nat
  ix_bloomFilterSize :: nat
  ix_partitions :: "(string \<times> partitionInfo) list"

record compound_json =
  cj_compoundRules :: "regexp list"
  cj_compoundRuleCodes :: "(string \<times> string list) list"
  cj_flags :: "string \<rightharpoonup> jsval"
  cj_replacementTable :: "(string \<times> string) list"

datatype json_file = IndexFile index_json | BloomFile BloomFilter | CompoundFile compound_json
  | RulesFile | PartitionFile partition

type_synonym filesystem = "string \<rightharpoonup> json_file"

record typo =
  dictionary :: string
  dictionaryTable :: "(string \<times> ruleCodes) list"
  compoundRules :: "regexp list"
  compoundRuleCodes :: "(string \<times> string list) list"
  replacementTable :: "(string \<times> string) list"
  flags :: "string \<rightharpoonup> jsval"
  memoized :: "string \<rightharpoonup> memo"
  loaded :: bool
  preCalculated :: bool
  preCalculatedPath :: string
  bloomFilter :: "BloomFilter option"
  partitionIndex :: "(string \<times> partitionInfo) list option"
  partitionCache :: "(string, wordData list) LRUCache"
  notFoundCache :: "(string, bool) LRUCache"
  alphabet :: string

definition PRECALC_FORMAT_VERSION :: int where
  "PRECALC_FORMAT_VERSION = 1"

definition notLoaded :: js_error where
  "notLoaded = Thrown ''Dictionary not loaded.''"

definition basePath :: "typo \<Rightarrow> string" where
  "basePath d = preCalculatedPath d @ ''/'' @ dictionary d"

definition getPartitionPrefix :: "string \<Rightarrow> string" where
  "getPartitionPrefix word =
     (if length word \<ge> 2 then toLowerCase (take 2 word) else toLowerCase (CHR ''_'' # word))"

definition loadPartition :: "filesystem \<Rightarrow> typo \<Rightarrow> string \<Rightarrow> js_error + wordData list \<times> typo" where
  "loadPartition fs d prefix =
     (if has_lru (partitionCache d) prefix then
        (case get_lru (partitionCache d) prefix of
           (Some words, c) \<Rightarrow> Inr (words, d\<lparr>partitionCache := c\<rparr>)
         | (None, c) \<Rightarrow> Inl TypeError)
      else
        (case partitionIndex d of
           None \<Rightarrow> Inl TypeError
         | Some index \<Rightarrow>
             (case map_of index prefix of
                None \<Rightarrow> Inr ([], d)
              | Some partitionInfo \<Rightarrow>
                  (case fs (basePath d @ ''/'' @ info_file partitionInfo) of
                     Some (PartitionFile part) \<Rightarrow>
                       Inr (part_words part,
                            d\<lparr>partitionCache :=
                                set_lru (partitionCache d) prefix (part_words part)\<rparr>)
                   | Some _ \<Rightarrow> Inl TypeError
                   | None \<Rightarrow> Inl SyntaxError))))"

function binarySearch_loop :: "wordData list \<Rightarrow> string \<Rightarrow> int \<Rightarrow> int \<Rightarrow> bool" where
  "binarySearch_loop words target left right =
     (if left \<le> right then
        (let mid = (left + right) div 2;
             wordData = words ! nat mid;
             comparison = compareStrings (word_w wordData) target
         in if comparison = 0 then True
            else if comparison < 0 then binarySearch_loop words target (mid + 1) right
            else binarySearch_loop words target left (mid - 1))
      else False)"
  by pat_completeness auto
termination
  by (relation "measure (\<lambda>(words, target, left, right). nat (right - left + 1))") auto

definition binarySearch :: "wordData list \<Rightarrow> string \<Rightarrow> bool" where
  "binarySearch words target = binarySearch_loop words target 0 (int (length words) - 1)"

function findWordRules_loop :: "wordData list \<Rightarrow> string \<Rightarrow> int \<Rightarrow> int \<Rightarrow> ruleCodes" where
  "findWordRules_loop words target left right =
     (if left \<le> right then
        (let mid = (left + right) div 2;
             wordData = words ! nat mid;
             comparison = compareStrings (word_w wordData) target
         in if comparison = 0 then word_r wordData
            else if comparison < 0 then findWordRules_loop words target (mid + 1) right
            else findWordRules_loop words target left (mid - 1))
      else None)"
  by pat_completeness auto
termination
  by (relation "measure (\<lambda>(words, target, left, right). nat (right - left + 1))") auto

definition findWordRules :: "wordData list \<Rightarrow> string \<Rightarrow> ruleCodes" where
  "findWordRules words target = findWordRules_loop words target 0 (int (length words) - 1)"

definition flagIn :: "typo \<Rightarrow> string \<Rightarrow> string list \<Rightarrow> bool" where
  "flagIn d flag wordFlags =
     (case flags d flag of Some (Str code) \<Rightarrow> code \<in> set wordFlags | _ \<Rightarrow> False)"

definition hasFlag ::
  "filesystem \<Rightarrow> typo \<Rightarrow> string \<Rightarrow> string \<Rightarrow> string list option \<Rightarrow> js_error + bool \<times> typo" where
  "hasFlag fs d word flag wordFlags =
     (if \<not> loaded d then Inl notLoaded
      else if flags d flag \<noteq> None then
        (case wordFlags of
           Some given \<Rightarrow> Inr (flagIn d flag given, d)
         | None \<Rightarrow>
             if preCalculated d then
               (let prefix = getPartitionPrefix word in
                case loadPartition fs d prefix of
                  Inl e \<Rightarrow> Inl e
                | Inr (words, d1) \<Rightarrow>
                    (case findWordRules words word of
                       Some rules \<Rightarrow> Inr (flagIn d1 flag (concat rules), d1)
                     | None \<Rightarrow> Inr (False, d1)))
             else
               (case map_of (dictionaryTable d) word of
                  Some (Some rules) \<Rightarrow> Inr (flagIn d flag (concat rules), d)
                | _ \<Rightarrow> Inr (flagIn d flag [], d)))
      else Inr (False, d))"

definition matchesSomeRule :: "typo \<Rightarrow> string \<Rightarrow> bool" where
  "matchesSomeRule d word = list_ex (\<lambda>rule. regexp_matches rule word) (compoundRules d)"

definition matchesCompoundRule :: "typo \<Rightarrow> string \<Rightarrow> bool" where
  "matchesCompoundRule d word =
     (case flags d ''COMPOUNDMIN'' of
        Some compoundMin \<Rightarrow> lengthAtLeast (length word) compoundMin \<and> matchesSomeRule d word
      | None \<Rightarrow> False)"

definition decimalMinimum :: "typo \<Rightarrow> bool" where
  "decimalMinimum d =
     (case flags d ''COMPOUNDMIN'' of
        Some (Str s) \<Rightarrow> list_all (\<lambda>c. 48 \<le> code_unit c \<and> code_unit c \<le> 57) s
      | _ \<Rightarrow> True)"

definition checkPreCalculated :: "filesystem \<Rightarrow> typo \<Rightarrow> string \<Rightarrow> js_error + bool \<times> typo" where
  "checkPreCalculated fs d word =
     (if has_lru (notFoundCache d) word then Inr (False, d)
      else
        (case bloomFilter d of
           None \<Rightarrow> Inl TypeError
         | Some bf \<Rightarrow>
             if \<not> mightContain bf word
             then Inr (False, d\<lparr>notFoundCache := add_lru (notFoundCache d) word\<rparr>)
             else
               (let prefix = getPartitionPrefix word in
                case loadPartition fs d prefix of
                  Inl e \<Rightarrow> Inl e
                | Inr (words, d1) \<Rightarrow>
                    (let found = binarySearch words word in
                     if \<not> found then
                       (if matchesCompoundRule d1 word then Inr (True, d1)
                        else Inr (found, d1\<lparr>notFoundCache := add_lru (notFoundCache d1) word\<rparr>))
                     else Inr (found, d1)))))"

fun checkExact_codes ::
  "filesystem \<Rightarrow> typo \<Rightarrow> string \<Rightarrow> string list list \<Rightarrow> js_error + bool \<times> typo" where
  "checkExact_codes fs d word [] = Inr (False, d)"
| "checkExact_codes fs d word (codes # rest) =
     (case hasFlag fs d word ''ONLYINCOMPOUND'' (Some codes) of
        Inl e \<Rightarrow> Inl e
      | Inr (onlyInCompound, d1) \<Rightarrow>
          if \<not> onlyInCompound then Inr (True, d1) else checkExact_codes fs d1 word rest)"

definition objectPrototypeProperties :: "string list" where
  "objectPrototypeProperties =
     [''constructor'', ''hasOwnProperty'', ''isPrototypeOf'', ''propertyIsEnumerable'',
      ''toLocaleString'', ''toString'', ''valueOf'', ''__proto__'', ''__defineGetter__'',
      ''__defineSetter__'', ''__lookupGetter__'', ''__lookupSetter__'']"

definition checkExact :: "filesystem \<Rightarrow> typo \<Rightarrow> string \<Rightarrow> js_error + bool \<times> typo" where
  "checkExact fs d word =
     (if \<not> loaded d then Inl notLoaded
      else if preCalculated d then checkPreCalculated fs d word
      else
        (case map_of (dictionaryTable d) word of
           None \<Rightarrow>
             if word \<in> set objectPrototypeProperties then Inr (False, d)
             else Inr (matchesCompoundRule d word, d)
         | Some None \<Rightarrow> Inr (True, d)
         | Some (Some ruleCodes) \<Rightarrow> checkExact_codes fs d word ruleCodes))"

definition check_uncapitalized :: "filesystem \<Rightarrow> typo \<Rightarrow> string \<Rightarrow> js_error + bool \<times> typo" where
  "check_uncapitalized fs d trimmedWord =
     (case trimmedWord of
        [] \<Rightarrow> Inl TypeError
      | c # rest \<Rightarrow>
          (let uncapitalizedWord = toLowerChar c # rest in
           if uncapitalizedWord \<noteq> trimmedWord then
             (case hasFlag fs d uncapitalizedWord ''KEEPCASE'' None of
                Inl e \<Rightarrow> Inl e
              | Inr (keepCase, d1) \<Rightarrow>
                  if keepCase then Inr (False, d1)
                  else
                    (case checkExact fs d1 uncapitalizedWord of
                       Inl e \<Rightarrow> Inl e
                     | Inr (hit, d2) \<Rightarrow> if hit then Inr (True, d2) else Inr (False, d2)))
           else Inr (False, d)))"

definition check_uppercase :: "filesystem \<Rightarrow> typo \<Rightarrow> string \<Rightarrow> js_error + bool option \<times> typo" where
  "check_uppercase fs d trimmedWord =
     (let capitalizedWord = charAt0 trimmedWord @ toLowerCase (drop 1 trimmedWord) in
      case hasFlag fs d capitalizedWord ''KEEPCASE'' None of
        Inl e \<Rightarrow> Inl e
      | Inr (keepCase, d1) \<Rightarrow>
          if keepCase then Inr (Some False, d1)
          else
            (case checkExact fs d1 capitalizedWord of
               Inl e \<Rightarrow> Inl e
             | Inr (hit, d2) \<Rightarrow>
                 if hit then Inr (Some True, d2)
                 else
                   (case checkExact fs d2 (toLowerCase trimmedWord) of
                      Inl e \<Rightarrow> Inl e
                    | Inr (hit', d3) \<Rightarrow> if hit' then Inr (Some True, d3) else Inr (None, d3))))"

definition check :: "filesystem \<Rightarrow> typo \<Rightarrow> string \<Rightarrow> js_error + bool \<times> typo" where
  "check fs d aWord =
     (if \<not> loaded d then Inl notLoaded
      else if aWord = [] then Inr (False, d)
      else
        (let trimmedWord = trim aWord in
         case checkExact fs d trimmedWord of
           Inl e \<Rightarrow> Inl e
         | Inr (hit, d1) \<Rightarrow>
             if hit then Inr (True, d1)
             else if toUpperCase trimmedWord = trimmedWord then
               (case check_uppercase fs d1 trimmedWord of
                  Inl e \<Rightarrow> Inl e
                | Inr (Some answer, d2) \<Rightarrow> Inr (answer, d2)
                | Inr (None, d2) \<Rightarrow> check_uncapitalized fs d2 trimmedWord)
             else check_uncapitalized fs d1 trimmedWord))"

section \<open>Answers of a dictionary, independent of its caches\<close>

definition storedWords :: "filesystem \<Rightarrow> typo \<Rightarrow> string \<Rightarrow> wordData list" where
  "storedWords fs d prefix =
     (case partitionIndex d of
        None \<Rightarrow> []
      | Some index \<Rightarrow>
          (case map_of index prefix of
             None \<Rightarrow> []
           | Some partitionInfo \<Rightarrow>
               (case fs (basePath d @ ''/'' @ info_file partitionInfo) of
                  Some (PartitionFile part) \<Rightarrow> part_words part
                | _ \<Rightarrow> [])))"

definition isPartitionFile :: "json_file option \<Rightarrow> bool" where
  "isPartitionFile f = (case f of Some (PartitionFile part) \<Rightarrow> True | _ \<Rightarrow> False)"

definition files_ok :: "filesystem \<Rightarrow> typo \<Rightarrow> bool" where
  "files_ok fs d =
     (bloomFilter d \<noteq> None \<and>
      (case partitionIndex d of
         None \<Rightarrow> False
       | Some index \<Rightarrow>
           list_all (\<lambda>e. isPartitionFile (fs (basePath d @ ''/'' @ info_file (snd e)))) index))"

definition exactHit :: "filesystem \<Rightarrow> typo \<Rightarrow> string \<Rightarrow> bool" where
  "exactHit fs d word =
     (if preCalculated d then
        (case bloomFilter d of
           None \<Rightarrow> False
         | Some bf \<Rightarrow>
             mightContain bf word \<and>
             (binarySearch (storedWords fs d (getPartitionPrefix word)) word \<or>
              matchesCompoundRule d word))
      else
        (case map_of (dictionaryTable d) word of
           None \<Rightarrow> word \<notin> set objectPrototypeProperties \<and> matchesCompoundRule d word
         | Some None \<Rightarrow> True
         | Some (Some ruleCodes) \<Rightarrow>
             list_ex (\<lambda>codes. \<not> flagIn d ''ONLYINCOMPOUND'' codes) ruleCodes))"

definition wordHasFlag :: "filesystem \<Rightarrow> typo \<Rightarrow> string \<Rightarrow> string \<Rightarrow> bool" where
  "wordHasFlag fs d word flag =
     (if preCalculated d then
        (case findWordRules (storedWords fs d (getPartitionPrefix word)) word of
           Some rules \<Rightarrow> flagIn d flag (concat rules)
         | None \<Rightarrow> False)
      else
        (case map_of (dictionaryTable d) word of
           Some (Some rules) \<Rightarrow> flagIn d flag (concat rules)
         | _ \<Rightarrow> False))"

definition caches_coherent :: "filesystem \<Rightarrow> typo \<Rightarrow> bool" where
  "caches_coherent fs d =
     (list_all (\<lambda>e. snd e = storedWords fs d (fst e)) (cache (partitionCache d)) \<and>
      list_all (\<lambda>e. \<not> exactHit fs d (fst e)) (cache (notFoundCache d)))"

definition instance_ok :: "filesystem \<Rightarrow> typo \<Rightarrow> bool" where
  "instance_ok fs d =
     (loaded d \<and> (if preCalculated d then files_ok fs d \<and> caches_coherent fs d else True))"

definition same_dictionary :: "typo \<Rightarrow> typo \<Rightarrow> bool" where
  "same_dictionary d d' =
     (d'\<lparr>partitionCache := partitionCache d, notFoundCache := notFoundCache d\<rparr> = d)"


definition weightOf :: "(string \<times> nat) list \<Rightarrow> string \<Rightarrow> nat" where
  "weightOf weighted_corrections key =
     (case map_of weighted_corrections key of Some n \<Rightarrow> n | None \<Rightarrow> 0)"

definition before :: "'a \<Rightarrow> 'a \<Rightarrow> 'a list \<Rightarrow> bool" where
  "before x y xs = (\<exists>us vs ws. xs = us @ x # vs @ y # ws)"

definition memo_distinct :: "typo \<Rightarrow> bool" where
  "memo_distinct d =
     (\<forall>word. case memoized d word of None \<Rightarrow> True | Some m \<Rightarrow> distinct (memo_suggestions m))"

definition step :: "filesystem \<Rightarrow> typo \<Rightarrow> typo \<Rightarrow> bool" where
  "step fs d d' = (instance_ok fs d' \<and> same_dictionary d d')"

definition uncapitalizedValue :: "filesystem \<Rightarrow> typo \<Rightarrow> string \<Rightarrow> js_error + bool" where
  "uncapitalizedValue fs d trimmedWord =
     (case trimmedWord of
        [] \<Rightarrow> Inl TypeError
      | c # rest \<Rightarrow>
          (let uncapitalizedWord = toLowerChar c # rest in
           Inr (uncapitalizedWord \<noteq> trimmedWord \<and>
                \<not> wordHasFlag fs d uncapitalizedWord ''KEEPCASE'' \<and>
                exactHit fs d uncapitalizedWord)))"

definition checkValue :: "filesystem \<Rightarrow> typo \<Rightarrow> string \<Rightarrow> js_error + bool" where
  "checkValue fs d aWord =
     (if aWord = [] then Inr False
      else
        (let trimmedWord = trim aWord;
             capitalizedWord = charAt0 trimmedWord @ toLowerCase (drop 1 trimmedWord)
         in if exactHit fs d trimmedWord then Inr True
            else if toUpperCase trimmedWord = trimmedWord then
              (if wordHasFlag fs d capitalizedWord ''KEEPCASE'' then Inr False
               else if exactHit fs d capitalizedWord then Inr True
               else if exactHit fs d (toLowerCase trimmedWord) then Inr True
               else uncapitalizedValue fs d trimmedWord)
            else uncapitalizedValue fs d trimmedWord))"

definition returns :: "js_error + 'a \<Rightarrow> typo \<Rightarrow> js_error + 'a \<times> typo" where
  "returns v d = (case v of Inl e \<Rightarrow> Inl e | Inr x \<Rightarrow> Inr (x, d))"

definition no_files :: filesystem where
  "no_files = Map.empty"

section \<open>Export and import of the paged index\<close>

record precalc =
  exp_index :: index_json
  exp_bloom :: BloomFilter
  exp_partitions :: "(string \<times> partition) list"
  exp_compound :: compound_json

fun pushWord :: "string \<Rightarrow> wordData \<Rightarrow> (string \<times> wordData list) list \<Rightarrow> (string \<times> wordData list) list" where
  "pushWord prefix wd [] = [(prefix, [wd])]"
| "pushWord prefix wd (p # ps) =
     (if fst p = prefix then (prefix, snd p @ [wd]) # ps else p # pushWord prefix wd ps)"

definition partitionWords :: "(string \<times> ruleCodes) list \<Rightarrow> (string \<times> wordData list) list" where
  "partitionWords allWords =
     foldl (\<lambda>partitions wordData.
              pushWord (getPartitionPrefix (fst wordData))
                \<lparr>word_w = fst wordData, word_r = snd wordData\<rparr> partitions)
       [] allWords"

definition exportPreCalculated :: "typo \<Rightarrow> js_error + precalc" where
  "exportPreCalculated d =
     (if \<not> loaded d then Inl (Thrown ''Dictionary must be loaded before exporting'')
      else if preCalculated d then Inl (Thrown ''Cannot export a pre-calculated dictionary'')
      else
        (let allWords = sort_key fst (dictionaryTable d);
             totalWords = length allWords;
             bloomSize = totalWords * 10;
             bloom = foldl add_bf (new_BloomFilter bloomSize 3) (map fst allWords);
             partitions = partitionWords allWords;
             index = \<lparr>ix_version = PRECALC_FORMAT_VERSION,
                      ix_language = dictionary d,
                      ix_totalWords = totalWords,
                      ix_partitionCount = length partitions,
                      ix_bloomFilterSize = bloomSize,
                      ix_partitions =
                        map (\<lambda>(prefix, ws).
                               (prefix, \<lparr>info_file = ''words/'' @ prefix @ ''.json'',
                                         info_count = length ws\<rparr>)) partitions\<rparr>;
             partitionData =
               map (\<lambda>(prefix, ws). (prefix, \<lparr>part_prefix = prefix, part_words = ws\<rparr>)) partitions;
             compoundData = \<lparr>cj_compoundRules = compoundRules d,
                             cj_compoundRuleCodes = compoundRuleCodes d,
                             cj_flags = flags d,
                             cj_replacementTable = replacementTable d\<rparr>
         in Inr \<lparr>exp_index = index, exp_bloom = bloom, exp_partitions = partitionData,
                 exp_compound = compoundData\<rparr>))"

definition writeFiles :: "string \<Rightarrow> string \<Rightarrow> precalc \<Rightarrow> filesystem \<Rightarrow> filesystem" where
  "writeFiles outputPath language exported fs =
     (let langOutputPath = outputPath @ ''/'' @ language;
          wordsOutputPath = langOutputPath @ ''/'' @ ''words'';
          fs1 = fs(langOutputPath @ ''/'' @ ''index.json'' \<mapsto> IndexFile (exp_index exported));
          fs2 = fs1(langOutputPath @ ''/'' @ ''bloom.json'' \<mapsto> BloomFile (exp_bloom exported));
          fs3 = fs2(langOutputPath @ ''/'' @ ''compound.json'' \<mapsto> CompoundFile (exp_compound exported));
          fs4 = fs3(langOutputPath @ ''/'' @ ''rules.json'' \<mapsto> RulesFile)
      in foldl (\<lambda>f (prefix, part). f(wordsOutputPath @ ''/'' @ prefix @ ''.json'' \<mapsto> PartitionFile part))
           fs4 (exp_partitions exported))"

definition initial_typo :: typo where
  "initial_typo =
     \<lparr>dictionary = [], dictionaryTable = [], compoundRules = [], compoundRuleCodes = [],
      replacementTable = [], flags = Map.empty, memoized = Map.empty, loaded = False,
      preCalculated = False, preCalculatedPath = [], bloomFilter = None, partitionIndex = None,
      partitionCache = new_LRUCache 0, notFoundCache = new_LRUCache 0, alphabet = []\<rparr>"

definition loadPreCalculated :: "filesystem \<Rightarrow> typo \<Rightarrow> js_error + typo" where
  "loadPreCalculated fs d =
     (case fs (basePath d @ ''/index.json'') of
        None \<Rightarrow> Inl SyntaxError
      | Some (IndexFile index) \<Rightarrow>
          if ix_version index \<noteq> PRECALC_FORMAT_VERSION
          then Inl (UnsupportedVersion (ix_version index))
          else
            (case fs (basePath d @ ''/bloom.json'') of
               None \<Rightarrow> Inl SyntaxError
             | Some (BloomFile bloomJson) \<Rightarrow>
                 (case fs (basePath d @ ''/compound.json'') of
                    None \<Rightarrow> Inl SyntaxError
                  | Some (CompoundFile compoundJson) \<Rightarrow>
                      (case fs (basePath d @ ''/rules.json'') of
                         None \<Rightarrow> Inl SyntaxError
                       | Some _ \<Rightarrow>
                           Inr (d\<lparr>partitionIndex := Some (ix_partitions index),
                                  bloomFilter := Some bloomJson,
                                  compoundRules := cj_compoundRules compoundJson,
                                  compoundRuleCodes := cj_compoundRuleCodes compoundJson,
                                  flags := cj_flags compoundJson,
                                  replacementTable := cj_replacementTable compoundJson,
                                  loaded := True\<rparr>))
                  | Some _ \<Rightarrow> Inl TypeError)
             | Some _ \<Rightarrow> Inl TypeError)
      | Some _ \<Rightarrow> Inl TypeError)"

definition new_Typo_preCalculated ::
  "filesystem \<Rightarrow> string \<Rightarrow> string \<Rightarrow> nat \<Rightarrow> nat \<Rightarrow> js_error + typo" where
  "new_Typo_preCalculated fs dict path partitionCacheSize notFoundCacheSize =
     loadPreCalculated fs
       (initial_typo\<lparr>dictionary := dict,
                     preCalculated := True,
                     preCalculatedPath := path,
                     partitionCache := new_LRUCache (if partitionCacheSize = 0 then 20 else partitionCacheSize),
                     notFoundCache := new_LRUCache (if notFoundCacheSize = 0 then 10000 else notFoundCacheSize)\<rparr>)"

section \<open>Suggestions\<close>

fun indexOf :: "string \<Rightarrow> string \<Rightarrow> nat option" where
  "indexOf [] pat = (if pat = [] then Some 0 else None)"
| "indexOf (c # cs) pat =
     (if take (length pat) (c # cs) = pat then Some 0 else map_option Suc (indexOf cs pat))"

fun getSubstitution :: "string \<Rightarrow> string \<Rightarrow> string \<Rightarrow> string \<Rightarrow> string" where
  "getSubstitution matched preceding following [] = []"
| "getSubstitution matched preceding following [c] = [c]"
| "getSubstitution matched preceding following (c # c' # rest) =
     (if c = CHR ''$'' \<and> c' = CHR ''$'' then CHR ''$'' # getSubstitution matched preceding following rest
      else if c = CHR ''$'' \<and> c' = CHR ''&'' then matched @ getSubstitution matched preceding following rest
      else if c = CHR ''$'' \<and> c' = CHR 0x60 then preceding @ getSubstitution matched preceding following rest
      else if c = CHR ''$'' \<and> c' = CHR 0x27 then following @ getSubstitution matched preceding following rest
      else c # getSubstitution matched preceding following (c' # rest))"

definition replaceFirst :: "string \<Rightarrow> string \<Rightarrow> string \<Rightarrow> string" where
  "replaceFirst word pat rep =
     (case indexOf word pat of
        None \<Rightarrow> word
      | Some i \<Rightarrow>
          take i word @
          getSubstitution pat (take i word) (drop (i + length pat) word) rep @
          drop (i + length pat) word)"

fun tryReplacements ::
  "filesystem \<Rightarrow> typo \<Rightarrow> string \<Rightarrow> (string \<times> string) list \<Rightarrow> js_error + string option \<times> typo" where
  "tryReplacements fs d word [] = Inr (None, d)"
| "tryReplacements fs d word (replacementEntry # rest) =
     (if indexOf word (fst replacementEntry) \<noteq> None then
        (let correctedWord = replaceFirst word (fst replacementEntry) (snd replacementEntry) in
         case check fs d correctedWord of
           Inl e \<Rightarrow> Inl e
         | Inr (ok, d1) \<Rightarrow>
             if ok then Inr (Some correctedWord, d1) else tryReplacements fs d1 word rest)
      else tryReplacements fs d word rest)"

definition isDigit :: "char \<Rightarrow> bool" where
  "isDigit c = (48 \<le> code_unit c \<and> code_unit c \<le> 57)"

definition isArrayIndex :: "string \<Rightarrow> bool" where
  "isArrayIndex key =
     (key \<noteq> [] \<and> list_all isDigit key \<and> (key = ''0'' \<or> hd key \<noteq> CHR ''0'') \<and>
      (case digitsValue 0 key of Some n \<Rightarrow> n \<le> 4294967294 | None \<Rightarrow> False))"

definition indexValue :: "string \<Rightarrow> nat" where
  "indexValue key = (case digitsValue 0 key of Some n \<Rightarrow> n | None \<Rightarrow> 0)"

definition ownKeys :: "(string \<times> 'v) list \<Rightarrow> string list" where
  "ownKeys obj =
     sort_key indexValue (filter isArrayIndex (map fst obj)) @
     filter (\<lambda>key. \<not> isArrayIndex key) (map fst obj)"

fun addWeight :: "string \<Rightarrow> nat \<Rightarrow> (string \<times> nat) list \<Rightarrow> (string \<times> nat) list" where
  "addWeight key n [] = [(key, n)]"
| "addWeight key n (e # es) =
     (if fst e = key then (key, snd e + n) # es else e # addWeight key n es)"

fun showNat :: "nat \<Rightarrow> string" where
  "showNat n = (if n < 10 then [char_of (48 + n)] else showNat (n div 10) @ [char_of (48 + n mod 10)])"

definition jsString :: "jsval \<Rightarrow> string" where
  "jsString v =
     (case v of
        Undefined \<Rightarrow> ''undefined''
      | Str s \<Rightarrow> s
      | Num n \<Rightarrow> if n < 0 then CHR ''-'' # showNat (nat (- n)) else showNat (nat n))"

definition defaultAlphabet :: "typo \<Rightarrow> string" where
  "defaultAlphabet d =
     (let a0 = ''abcdefghijklmnopqrstuvwxyzABCDEFGHIJKLMNOPQRSTUVWXYZ'';
          a1 = (case flags d ''TRY'' of Some v \<Rightarrow> a0 @ jsString v | None \<Rightarrow> a0);
          a2 = (case flags d ''WORDCHARS'' of Some v \<Rightarrow> a1 @ jsString v | None \<Rightarrow> a1);
          alphaArray = remdups_adj (sort_key code_unit a2)
      in filter isDigit alphaArray @ filter (\<lambda>c. \<not> isDigit c) alphaArray)"

definition editsAt :: "string \<Rightarrow> string \<Rightarrow> nat \<Rightarrow> string list" where
  "editsAt alph word i =
     (let s0 = take i word; s1 = drop i word in
      (if s1 \<noteq> [] then [s0 @ drop 1 s1] else []) @
      (if length s1 > 1 \<and> s1 ! 1 \<noteq> s1 ! 0 then [s0 @ [s1 ! 1, s1 ! 0] @ drop 2 s1] else []) @
      (if s1 \<noteq> [] then
         concat (map (\<lambda>letter.
           let replacementLetter =
                 (if toUpperCase (take 1 s1) = take 1 s1 then toUpperChar letter else letter)
           in if [replacementLetter] \<noteq> take 1 s1 then [s0 @ [replacementLetter] @ drop 1 s1] else [])
           alph)
       else []) @
      (if s1 \<noteq> [] then
         map (\<lambda>letter.
           let replacementLetter =
                 (if toUpperCase s0 = s0 \<and> toUpperCase (take 1 s1) = take 1 s1
                  then toUpperChar letter else letter)
           in s0 @ [replacementLetter] @ s1)
           alph
       else []))"

definition editsOfWord :: "string \<Rightarrow> string \<Rightarrow> string list" where
  "editsOfWord alph word = concat (map (editsAt alph word) [0..<length word + 1])"

fun recordEdits ::
  "filesystem \<Rightarrow> bool \<Rightarrow> string list \<Rightarrow> (string \<times> nat) list \<Rightarrow> typo
     \<Rightarrow> js_error + (string \<times> nat) list \<times> typo" where
  "recordEdits fs known_only [] rv d = Inr (rv, d)"
| "recordEdits fs known_only (edit # es) rv d =
     (if \<not> known_only then recordEdits fs known_only es (addWeight edit 1 rv) d
      else
        (case check fs d edit of
           Inl e \<Rightarrow> Inl e
         | Inr (ok, d1) \<Rightarrow>
             recordEdits fs known_only es (if ok then addWeight edit 1 rv else rv) d1))"

definition edits1 ::
  "filesystem \<Rightarrow> typo \<Rightarrow> string list \<Rightarrow> bool \<Rightarrow> js_error + (string \<times> nat) list \<times> typo" where
  "edits1 fs d words known_only =
     recordEdits fs known_only (concat (map (editsOfWord (alphabet d)) words)) [] d"

fun addKnownEdits ::
  "filesystem \<Rightarrow> (string \<times> nat) list \<Rightarrow> string list \<Rightarrow> (string \<times> nat) list \<Rightarrow> typo
     \<Rightarrow> js_error + (string \<times> nat) list \<times> typo" where
  "addKnownEdits fs ed1 [] weighted_corrections d = Inr (weighted_corrections, d)"
| "addKnownEdits fs ed1 (ed1word # rest) weighted_corrections d =
     (case check fs d ed1word of
        Inl e \<Rightarrow> Inl e
      | Inr (ok, d1) \<Rightarrow>
          if \<not> ok then addKnownEdits fs ed1 rest weighted_corrections d1
          else
            addKnownEdits fs ed1 rest
              (addWeight ed1word (case map_of ed1 ed1word of Some n \<Rightarrow> n | None \<Rightarrow> 0)
                 weighted_corrections) d1)"

fun prioritize ::
  "filesystem \<Rightarrow> (string \<times> nat) list \<Rightarrow> string list \<Rightarrow> typo
     \<Rightarrow> js_error + (string \<times> nat) list \<times> typo" where
  "prioritize fs weighted_corrections [] d = Inr ([], d)"
| "prioritize fs weighted_corrections (i # rest) d =
     (case hasFlag fs d i ''PRIORITYSUGGEST'' None of
        Inl e \<Rightarrow> Inl e
      | Inr (priority, d1) \<Rightarrow>
          (let weight = (case map_of weighted_corrections i of Some n \<Rightarrow> n | None \<Rightarrow> 0);
               entry = (i, if priority then weight + 1000 else weight)
           in case prioritize fs weighted_corrections rest d1 of
                Inl e \<Rightarrow> Inl e
              | Inr (entries, d2) \<Rightarrow> Inr (entry # entries, d2)))"

definition sorter :: "(string \<Rightarrow> string \<Rightarrow> int) \<Rightarrow> string \<times> nat \<Rightarrow> string \<times> nat \<Rightarrow> int" where
  "sorter localeCompare a b =
     (let a_val = snd a; b_val = snd b in
      if a_val < b_val then - 1
      else if a_val > b_val then 1
      else localeCompare (fst b) (fst a))"

fun insert_by :: "('a \<Rightarrow> 'a \<Rightarrow> int) \<Rightarrow> 'a \<Rightarrow> 'a list \<Rightarrow> 'a list" where
  "insert_by cmp x [] = [x]"
| "insert_by cmp x (y # ys) = (if cmp x y \<le> 0 then x # y # ys else y # insert_by cmp x ys)"

definition sort_by :: "('a \<Rightarrow> 'a \<Rightarrow> int) \<Rightarrow> 'a list \<Rightarrow> 'a list" where
  "sort_by cmp xs = foldr (insert_by cmp) xs []"

definition sortCorrections ::
  "(string \<Rightarrow> string \<Rightarrow> int) \<Rightarrow> (string \<times> nat) list \<Rightarrow> (string \<times> nat) list" where
  "sortCorrections localeCompare sorted_corrections =
     rev (sort_by (sorter localeCompare) sorted_corrections)"

datatype capitalization = Lowercase | Uppercase | Capitalized

definition capitalization_scheme :: "string \<Rightarrow> capitalization" where
  "capitalization_scheme word =
     (if toUpperCase word = word then Uppercase
      else if toUpperCase (take 1 word) @ toLowerCase (drop 1 word) = word then Capitalized
      else Lowercase)"

definition recase :: "capitalization \<Rightarrow> string \<Rightarrow> string" where
  "recase scheme s =
     (case scheme of
        Uppercase \<Rightarrow> toUpperCase s
      | Capitalized \<Rightarrow> toUpperCase (take 1 s) @ drop 1 s
      | Lowercase \<Rightarrow> s)"

fun assemble ::
  "filesystem \<Rightarrow> capitalization \<Rightarrow> (string \<times> nat) list \<Rightarrow> nat \<Rightarrow> nat \<Rightarrow> string list \<Rightarrow> typo
     \<Rightarrow> js_error + string list \<times> typo" where
  "assemble fs scheme [] i working_limit rv d = Inr (rv, d)"
| "assemble fs scheme (c # cs) i working_limit rv d =
     (if i < working_limit then
        (let s = recase scheme (fst c) in
         case hasFlag fs d s ''NOSUGGEST'' None of
           Inl e \<Rightarrow> Inl e
         | Inr (noSuggest, d1) \<Rightarrow>
             if \<not> noSuggest \<and> s \<notin> set rv
             then assemble fs scheme cs (Suc i) working_limit (rv @ [s]) d1
             else assemble fs scheme cs (Suc i) (Suc working_limit) rv d1)
      else Inr (rv, d))"

definition correct ::
  "(string \<Rightarrow> string \<Rightarrow> int) \<Rightarrow> filesystem \<Rightarrow> typo \<Rightarrow> string \<Rightarrow> nat
     \<Rightarrow> js_error + string list \<times> typo" where
  "correct localeCompare fs d word limit =
     (case edits1 fs d [word] False of
        Inl e \<Rightarrow> Inl e
      | Inr (ed1, d1) \<Rightarrow>
          (case edits1 fs d1 (ownKeys ed1) True of
             Inl e \<Rightarrow> Inl e
           | Inr (ed2, d2) \<Rightarrow>
               (case addKnownEdits fs ed1 (ownKeys ed1) ed2 d2 of
                  Inl e \<Rightarrow> Inl e
                | Inr (weighted_corrections, d3) \<Rightarrow>
                    (case prioritize fs weighted_corrections (ownKeys weighted_corrections) d3 of
                       Inl e \<Rightarrow> Inl e
                     | Inr (sorted_corrections, d4) \<Rightarrow>
                         assemble fs (capitalization_scheme word)
                           (sortCorrections localeCompare sorted_corrections) 0 limit [] d4))))"

definition suggest ::
  "(string \<Rightarrow> string \<Rightarrow> int) \<Rightarrow> filesystem \<Rightarrow> typo \<Rightarrow> string \<Rightarrow> nat
     \<Rightarrow> js_error + string list \<times> typo" where
  "suggest localeCompare fs d word limit0 =
     (if \<not> loaded d then Inl notLoaded
      else
        (let limit = (if limit0 = 0 then 5 else limit0);
             cached =
               (case memoized d word of
                  Some m \<Rightarrow>
                    if limit \<le> memo_limit m \<or> length (memo_suggestions m) < memo_limit m
                    then Some (take limit (memo_suggestions m)) else None
                | None \<Rightarrow> None)
         in case cached of
              Some suggestions \<Rightarrow> Inr (suggestions, d)
            | None \<Rightarrow>
                (case check fs d word of
                   Inl e \<Rightarrow> Inl e
                 | Inr (ok, d1) \<Rightarrow>
                     if ok then Inr ([], d1)
                     else
                       (case tryReplacements fs d1 word (replacementTable d1) of
                          Inl e \<Rightarrow> Inl e
                        | Inr (Some correctedWord, d2) \<Rightarrow> Inr ([correctedWord], d2)
                        | Inr (None, d2) \<Rightarrow>
                            (let d3 = (if alphabet d2 = [] then d2\<lparr>alphabet := defaultAlphabet d2\<rparr>
                                       else d2)
                             in case correct localeCompare fs d3 word limit of
                                  Inl e \<Rightarrow> Inl e
                                | Inr (suggestions, d4) \<Rightarrow>
                                    Inr (suggestions,
                                         d4\<lparr>memoized := (memoized d4)(word \<mapsto>
                                              \<lparr>memo_suggestions = suggestions,
                                               memo_limit = limit\<rparr>)\<rparr>))))))"

section \<open>The weight of a candidate\<close>





section \<open>Dictionaries that differ in caches, memo and alphabet only\<close>

definition same_contents :: "typo \<Rightarrow> typo \<Rightarrow> bool" where
  "same_contents d e =
     (e\<lparr>partitionCache := partitionCache d, notFoundCache := notFoundCache d,
        memoized := memoized d, alphabet := alphabet d\<rparr> = d)"

definition usedAlphabet :: "typo \<Rightarrow> string" where
  "usedAlphabet d = (if alphabet d = [] then defaultAlphabet d else alphabet d)"

definition agree :: "filesystem \<Rightarrow> js_error + 'a \<times> typo \<Rightarrow> js_error + 'a \<times> typo \<Rightarrow> bool" where
  "agree fs r r' =
     (case r of
        Inl err \<Rightarrow> r' = Inl err
      | Inr (x, d) \<Rightarrow>
          (case r' of
             Inl err \<Rightarrow> False
           | Inr (x', d') \<Rightarrow>
               x' = x \<and> instance_ok fs d \<and> instance_ok fs d' \<and> same_contents d d'))"



section \<open>Example dictionaries\<close>

definition example_rule :: regexp where
  "example_rule = [(Group [''foo''], Once), (Group [''bar''], Once)]"

definition example_memory :: typo where
  "example_memory =
     initial_typo
       \<lparr>dictionary := ''en'',
        dictionaryTable :=
          [(''foo'', Some [ [''A''] ]), (''bar'', Some [ [''B''] ]), (''the'', None),
           (''NASA'', Some [ [''K''] ]), (''only'', Some [ [''O''] ])],
        compoundRules := [example_rule],
        compoundRuleCodes := [(''A'', [''foo'']), (''B'', [''bar''])],
        replacementTable := [(''teh'', ''the'')],
        flags := [''KEEPCASE'' \<mapsto> Str ''K'', ''ONLYINCOMPOUND'' \<mapsto> Str ''O'',
                  ''COMPOUNDMIN'' \<mapsto> Str ''3''],
        loaded := True\<rparr>"

definition example_min7 :: typo where
  "example_min7 =
     example_memory
       \<lparr>flags := [''KEEPCASE'' \<mapsto> Str ''K'', ''ONLYINCOMPOUND'' \<mapsto> Str ''O'',
                  ''COMPOUNDMIN'' \<mapsto> Str ''7'']\<rparr>"

definition example_nomin :: typo where
  "example_nomin =
     example_memory\<lparr>flags := [''KEEPCASE'' \<mapsto> Str ''K'', ''ONLYINCOMPOUND'' \<mapsto> Str ''O'']\<rparr>"

definition example_keepcase :: typo where
  "example_keepcase =
     initial_typo
       \<lparr>dictionary := ''en'',
        dictionaryTable := [(''Nasa'', Some [ [''K''] ]), (''nasa'', None)],
        flags := [''KEEPCASE'' \<mapsto> Str ''K''],
        loaded := True\<rparr>"

definition example_files :: filesystem where
  "example_files =
     (case exportPreCalculated example_memory of
        Inr exported \<Rightarrow> writeFiles ''dicts'' ''en'' exported no_files
      | Inl e \<Rightarrow> no_files)"

definition example_paged :: "js_error + typo" where
  "example_paged = new_Typo_preCalculated example_files ''en'' ''dicts'' 2 0"

definition example_paged_typo :: typo where
  "example_paged_typo =
     \<lparr>dictionary = ''en'', dictionaryTable = [],
      compoundRules = [example_rule],
      compoundRuleCodes = [(''A'', [''foo'']), (''B'', [''bar''])],
      replacementTable = [(''teh'', ''the'')],
      flags = [''KEEPCASE'' \<mapsto> Str ''K'', ''ONLYINCOMPOUND'' \<mapsto> Str ''O'',
               ''COMPOUNDMIN'' \<mapsto> Str ''3''],
      memoized = Map.empty, loaded = True, preCalculated = True,
      preCalculatedPath = ''dicts'',
      bloomFilter = Some \<lparr>size_bf = 50, numHashes = 3, bits = [16, 0, 0, 64, 36, 2, 2]\<rparr>,
      partitionIndex =
        Some [(''na'', \<lparr>info_file = ''words/na.json'', info_count = 1\<rparr>),
              (''ba'', \<lparr>info_file = ''words/ba.json'', info_count = 1\<rparr>),
              (''fo'', \<lparr>info_file = ''words/fo.json'', info_count = 1\<rparr>),
              (''on'', \<lparr>info_file = ''words/on.json'', info_count = 1\<rparr>),
              (''th'', \<lparr>info_file = ''words/th.json'', info_count = 1\<rparr>)],
      partitionCache = \<lparr>maxSize = 2, cache = []\<rparr>,
      notFoundCache = \<lparr>maxSize = 10000, cache = []\<rparr>, alphabet = []\<rparr>"

fun loadAll :: "filesystem \<Rightarrow> typo \<Rightarrow> string list \<Rightarrow> js_error + typo" where
  "loadAll fs d [] = Inr d"
| "loadAll fs d (prefix # rest) =
     (case loadPartition fs d prefix of
        Inl e \<Rightarrow> Inl e
      | Inr (words, d1) \<Rightarrow> loadAll fs d1 rest)"

definition example_three_loads :: typo where
  "example_three_loads =
     example_paged_typo
       \<lparr>partitionCache :=
          \<lparr>maxSize = 2,
             cache = [(''ba'', [\<lparr>word_w = ''bar'', word_r = Some [ [''B''] ]\<rparr>]),
                      (''on'', [\<lparr>word_w = ''only'', word_r = Some [ [''O''] ]\<rparr>])]\<rparr>\<rparr>"

definition example_memoized :: typo where
  "example_memoized =
     example_memory
       \<lparr>memoized := [''fop'' \<mapsto> \<lparr>memo_suggestions = [''foo'', ''Foo''], memo_limit = 5\<rparr>]\<rparr>"





definition answer :: "js_error + bool \<times> typo \<Rightarrow> js_error + bool" where
  "answer result = map_sum id fst result"

section \<open>Evaluation rules\<close>

lemmas string_eval =
  toUpperCase_def toUpperChar_def toLowerCase_def toLowerChar_def code_unit_def char_of_def
  bit_Suc_0_iff isSpace_def trim_def charAt0_def compareStrings_def

lemmas query_eval =
  check_def check_uppercase_def check_uncapitalized_def checkExact_def hasFlag_def flagIn_def
  matchesCompoundRule_def matchesSomeRule_def notLoaded_def no_files_def initial_typo_def
  new_LRUCache_def answer_def Let_def objectPrototypeProperties_def

lemmas paged_eval =
  checkPreCalculated_def loadPartition_def getPartitionPrefix_def binarySearch_def
  findWordRules_def has_lru_def get_lru_def set_lru_def add_lru_def map_delete_def
  mightContain_def test_probe_def hash_bf_def basePath_def

lemmas export_eval =
  exportPreCalculated_def partitionWords_def new_BloomFilter_def add_bf_def add_probe_def
  hash_bf_def getPartitionPrefix_def PRECALC_FORMAT_VERSION_def writeFiles_def
  loadPreCalculated_def new_Typo_preCalculated_def basePath_def

lemmas example_eval = example_memory_def example_rule_def example_min7_def example_nomin_def
  example_keepcase_def

section \<open>The example dictionary, exported and imported\<close>

lemma replicate_7: "replicate 7 x = [x, x, x, x, x, x, x]"
  by (simp add: numeral_eq_Suc)

lemma example_paged_eq: "example_paged = Inr example_paged_typo"
  by (simp add: example_paged_def example_files_def export_eval query_eval string_eval
        example_eval example_paged_typo_def upt_conv_Cons replicate_7)

lemma example_files_partitions:
  "example_files ''dicts/en/words/fo.json'' =
     Some (PartitionFile \<lparr>part_prefix = ''fo'',
             part_words = [\<lparr>word_w = ''foo'', word_r = Some [ [''A''] ]\<rparr>]\<rparr>)"
  "example_files ''dicts/en/words/ba.json'' =
     Some (PartitionFile \<lparr>part_prefix = ''ba'',
             part_words = [\<lparr>word_w = ''bar'', word_r = Some [ [''B''] ]\<rparr>]\<rparr>)"
  "example_files ''dicts/en/words/on.json'' =
     Some (PartitionFile \<lparr>part_prefix = ''on'',
             part_words = [\<lparr>word_w = ''only'', word_r = Some [ [''O''] ]\<rparr>]\<rparr>)"
  "example_files ''dicts/en/words/th.json'' =
     Some (PartitionFile \<lparr>part_prefix = ''th'',
             part_words = [\<lparr>word_w = ''the'', word_r = None\<rparr>]\<rparr>)"
  "example_files ''dicts/en/words/na.json'' =
     Some (PartitionFile \<lparr>part_prefix = ''na'',
             part_words = [\<lparr>word_w = ''NASA'', word_r = Some [ [''K''] ]\<rparr>]\<rparr>)"
  by (simp_all add: example_files_def export_eval query_eval string_eval example_eval)

section \<open>BloomFilter: no false negatives\<close>

lemma add_probe_size [simp]: "size_bf (add_probe w bf i) = size_bf bf"
  and add_probe_numHashes [simp]: "numHashes (add_probe w bf i) = numHashes bf"
  and add_probe_length [simp]: "length (bits (add_probe w bf i)) = length (bits bf)"
  by (simp_all add: add_probe_def Let_def)

lemma foldl_add_probe_frame [simp]:
  "size_bf (foldl (add_probe w) bf is) = size_bf bf"
  "numHashes (foldl (add_probe w) bf is) = numHashes bf"
  "length (bits (foldl (add_probe w) bf is)) = length (bits bf)"
  by (induction "is" arbitrary: bf) simp_all

lemma add_bf_frame [simp]:
  "size_bf (add_bf bf w) = size_bf bf"
  "numHashes (add_bf bf w) = numHashes bf"
  "length (bits (add_bf bf w)) = length (bits bf)"
  by (simp_all add: add_bf_def)

lemma mask_or_keeps: "(x::8 word) AND m \<noteq> 0 \<Longrightarrow> (x OR y) AND m \<noteq> 0"
  by (metis bit.conj_disj_distrib2 or_eq_0_iff)

lemma mask_or_sets: "(m::8 word) \<noteq> 0 \<Longrightarrow> (x OR m) AND m \<noteq> 0"
  by (metis and.idem bit.conj_disj_distrib2 or_eq_0_iff)

lemma probe_mask_nonzero: "k < 8 \<Longrightarrow> (push_bit k 1 :: 8 word) \<noteq> 0"
proof
  assume "k < 8" "(push_bit k 1 :: 8 word) = 0"
  then have "bit (push_bit k 1 :: 8 word) k = bit (0 :: 8 word) k" by simp
  then show False using \<open>k < 8\<close> by (simp add: bit_simps)
qed

lemma test_probe_add_probe_same:
  assumes "0 < size_bf bf" "length (bits bf) = (size_bf bf + 7) div 8"
  shows "test_probe w (add_probe w bf i) i"
proof -
  let ?bi = "hash_bf w i mod size_bf bf"
  have "?bi < size_bf bf" using assms(1) by simp
  then have "?bi div 8 < length (bits bf)" using assms(2) by simp
  moreover have "(push_bit (?bi mod 8) 1 :: 8 word) \<noteq> 0"
    by (rule probe_mask_nonzero) simp
  ultimately show ?thesis
    using assms(1) by (simp add: test_probe_def add_probe_def Let_def mask_or_sets)
qed

lemma test_probe_add_probe_mono:
  assumes "test_probe w bf i"
  shows "test_probe w (add_probe v bf j) i"
proof (cases "size_bf bf = 0 \<or> \<not> hash_bf v j mod size_bf bf div 8 < length (bits bf)")
  case True
  then have "add_probe v bf j = bf" by (auto simp: add_probe_def Let_def)
  then show ?thesis using assms by simp
next
  case False
  let ?b = "hash_bf v j mod size_bf bf div 8"
  let ?m = "push_bit (hash_bf v j mod size_bf bf mod 8) 1 :: 8 word"
  let ?c = "hash_bf w i mod size_bf bf div 8"
  let ?n = "push_bit (hash_bf w i mod size_bf bf mod 8) 1 :: 8 word"
  from False have eq: "add_probe v bf j = bf\<lparr>bits := (bits bf)[?b := (bits bf ! ?b) OR ?m]\<rparr>"
    by (simp add: add_probe_def Let_def)
  from assms False have c: "?c < length (bits bf)" and t: "(bits bf ! ?c) AND ?n \<noteq> 0"
    by (auto simp: test_probe_def Let_def split: if_splits)
  have "((bits bf)[?b := (bits bf ! ?b) OR ?m] ! ?c) AND ?n \<noteq> 0"
  proof (cases "?b = ?c")
    case True
    then show ?thesis using c t by (simp add: mask_or_keeps)
  next
    case False
    then show ?thesis using t by simp
  qed
  then show ?thesis using False c by (simp add: eq test_probe_def Let_def)
qed

lemma test_probe_foldl_mono:
  "test_probe w bf i \<Longrightarrow> test_probe w (foldl (add_probe v) bf js) i"
  by (induction js arbitrary: bf) (simp_all add: test_probe_add_probe_mono)

lemma test_probe_add_bf_mono: "test_probe w bf i \<Longrightarrow> test_probe w (add_bf bf v) i"
  by (simp add: add_bf_def test_probe_foldl_mono)

lemma test_probe_foldl_same:
  assumes "0 < size_bf bf" "length (bits bf) = (size_bf bf + 7) div 8" "i \<in> set js"
  shows "test_probe w (foldl (add_probe w) bf js) i"
  using assms
proof (induction js arbitrary: bf)
  case Nil
  then show ?case by simp
next
  case (Cons j js)
  show ?case
  proof (cases "i = j")
    case True
    then show ?thesis
      using Cons.prems by (simp add: test_probe_foldl_mono test_probe_add_probe_same)
  next
    case False
    then have "i \<in> set js" using Cons.prems by simp
    then show ?thesis using Cons.IH [of "add_probe w bf j"] Cons.prems by simp
  qed
qed

lemma mightContain_add_bf_same:
  assumes "0 < size_bf bf" "length (bits bf) = (size_bf bf + 7) div 8"
  shows "mightContain (add_bf bf w) w"
  using assms
  by (simp add: mightContain_def list_all_iff) (simp add: add_bf_def test_probe_foldl_same)

lemma mightContain_add_bf_mono:
  "mightContain bf w \<Longrightarrow> mightContain (add_bf bf v) w"
  by (simp add: mightContain_def list_all_iff test_probe_add_bf_mono)

lemma size_foldl_add_bf [simp]:
  "size_bf (foldl add_bf bf ws) = size_bf bf"
  "length (bits (foldl add_bf bf ws)) = length (bits bf)"
  by (induction ws arbitrary: bf) simp_all

lemma mightContain_foldl_add_bf_mono:
  "mightContain bf w \<Longrightarrow> mightContain (foldl add_bf bf ws) w"
  by (induction ws arbitrary: bf) (simp_all add: mightContain_add_bf_mono)

lemma mightContain_foldl_add_bf:
  assumes "0 < size_bf bf" "length (bits bf) = (size_bf bf + 7) div 8" "w \<in> set ws"
  shows "mightContain (foldl add_bf bf ws) w"
  using assms
proof (induction ws arbitrary: bf)
  case Nil
  then show ?case by simp
next
  case (Cons v ws)
  show ?case
  proof (cases "w = v")
    case True
    then show ?thesis
      using Cons.prems by (simp add: mightContain_foldl_add_bf_mono mightContain_add_bf_same)
  next
    case False
    then have "w \<in> set ws" using Cons.prems by simp
    then show ?thesis using Cons.IH [of "add_bf bf v"] Cons.prems by simp
  qed
qed

lemma new_BloomFilter_wf [simp]:
  "size_bf (new_BloomFilter sz nh) = sz"
  "length (bits (new_BloomFilter sz nh)) = (sz + 7) div 8"
  by (simp_all add: new_BloomFilter_def)


lemma export_bloom:
  assumes "exportPreCalculated d = Inr exported"
  shows "exp_bloom exported =
           foldl add_bf (new_BloomFilter (length (dictionaryTable d) * 10) 3)
             (map fst (sort_key fst (dictionaryTable d)))"
  using assms by (auto simp: exportPreCalculated_def Let_def split: if_splits)

text \<open>
  C5. Every word inserted into a BloomFilter of positive size is reported by
  \<open>mightContain\<close> afterwards, whatever else was inserted before or after it; and every
  word of the dictionary table is reported by the filter that \<open>exportPreCalculated\<close>
  builds.
\<close>

theorem bloom_no_false_negatives:
  "(0 < sz \<and> w \<in> set ws \<longrightarrow> mightContain (foldl add_bf (new_BloomFilter sz nh) ws) w) \<and>
   (exportPreCalculated d = Inr exported \<and> v \<in> fst ` set (dictionaryTable d)
      \<longrightarrow> mightContain (exp_bloom exported) v)"
proof (intro conjI impI)
  assume "0 < sz \<and> w \<in> set ws"
  then show "mightContain (foldl add_bf (new_BloomFilter sz nh) ws) w"
    by (intro mightContain_foldl_add_bf) simp_all
next
  assume a: "exportPreCalculated d = Inr exported \<and> v \<in> fst ` set (dictionaryTable d)"
  then have "dictionaryTable d \<noteq> []" by auto
  then have pos: "0 < length (dictionaryTable d) * 10" by simp
  have mem: "v \<in> set (map fst (sort_key fst (dictionaryTable d)))" using a by simp
  have eq: "exp_bloom exported =
              foldl add_bf (new_BloomFilter (length (dictionaryTable d) * 10) 3)
                (map fst (sort_key fst (dictionaryTable d)))"
    using a by (simp add: export_bloom)
  show "mightContain (exp_bloom exported) v"
    unfolding eq using pos mem by (intro mightContain_foldl_add_bf) simp_all
qed

theorem bloom_no_false_negatives_witness:
  "0 < (10::nat) \<and> ''foo'' \<in> set [''bar'', ''foo'', ''baz''] \<and>
   mightContain (foldl add_bf (new_BloomFilter 10 3) [''bar'', ''foo'', ''baz'']) ''foo'' \<and>
   ''only'' \<in> fst ` set (dictionaryTable example_memory) \<and>
   (case exportPreCalculated example_memory of
      Inr exported \<Rightarrow> mightContain (exp_bloom exported) ''only''
    | Inl e \<Rightarrow> False)"
proof -
  have "\<exists>exported. exportPreCalculated example_memory = Inr exported"
    by (simp add: exportPreCalculated_def Let_def example_eval initial_typo_def)
  then obtain exported where e: "exportPreCalculated example_memory = Inr exported" ..
  have m: "''only'' \<in> fst ` set (dictionaryTable example_memory)"
    by (simp add: example_eval initial_typo_def)
  show ?thesis
    using bloom_no_false_negatives[of 10 "''foo''" "[''bar'', ''foo'', ''baz'']" 3
        example_memory exported "''only''"] e m
    by simp
qed

section \<open>LRUCache\<close>

lemma has_lru_iff: "has_lru c key \<longleftrightarrow> key \<in> set (keys_lru c)"
  by (simp add: has_lru_def map_of_eq_None_iff)

lemma keys_map_delete: "map fst (map_delete key es) = filter (\<lambda>k. k \<noteq> key) (map fst es)"
  by (induction es) (simp_all add: map_delete_def)

lemma length_map_delete: "length (map_delete key es) \<le> length es"
  by (simp add: map_delete_def)

lemma keys_get_lru:
  "keys_lru (snd (get_lru c key)) =
     (if key \<in> set (keys_lru c) then filter (\<lambda>k. k \<noteq> key) (keys_lru c) @ [key] else keys_lru c)"
proof (cases "map_of (cache c) key")
  case None
  then have "key \<notin> set (keys_lru c)"
    by (simp add: map_of_eq_None_iff)
  then show ?thesis using None by (simp add: get_lru_def)
next
  case (Some val)
  then have "key \<in> set (keys_lru c)"
    using has_lru_iff[of c key] by (simp add: has_lru_def)
  then show ?thesis using Some by (simp add: get_lru_def keys_map_delete)
qed

lemma maxSize_get_lru [simp]: "maxSize (snd (get_lru c key)) = maxSize c"
  by (simp add: get_lru_def split: option.splits)

lemma maxSize_set_lru [simp]: "maxSize (set_lru c key val) = maxSize c"
  by (simp add: set_lru_def Let_def)

lemma length_map_delete_less:
  "e \<in> set es \<Longrightarrow> length (map_delete (fst e) es) < length es"
  unfolding map_delete_def by (rule length_filter_less[where x = e]) simp_all

lemma length_get_lru: "length (cache (snd (get_lru c key))) \<le> length (cache c)"
proof (cases "map_of (cache c) key")
  case None
  then show ?thesis by (simp add: get_lru_def)
next
  case (Some val)
  then have "(key, val) \<in> set (cache c)" by (rule map_of_SomeD)
  then have "length (map_delete key (cache c)) < length (cache c)"
    using length_map_delete_less[of "(key, val)" "cache c"] by simp
  then show ?thesis using Some by (simp add: get_lru_def)
qed

lemma set_lru_cases:
  "cache (set_lru c key val) =
     (let c2 = map_delete key (cache c) @ [(key, val)]
      in if length c2 > maxSize c then map_delete (fst (hd c2)) c2 else c2)"
proof -
  have "\<not> has_lru c key \<Longrightarrow> map_delete key (cache c) = cache c"
    by (simp add: has_lru_iff map_delete_def filter_id_conv) force
  then show ?thesis by (auto simp: set_lru_def Let_def)
qed

lemma length_set_lru:
  assumes "length (cache c) \<le> maxSize c"
  shows "length (cache (set_lru c key val)) \<le> maxSize c"
proof -
  let ?c2 = "map_delete key (cache c) @ [(key, val)]"
  have l2: "length ?c2 \<le> Suc (maxSize c)"
    using assms length_map_delete[of key "cache c"] by simp
  have "hd ?c2 \<in> set ?c2" by (rule hd_in_set) simp
  then have "length (map_delete (fst (hd ?c2)) ?c2) < length ?c2"
    by (rule length_map_delete_less)
  then show ?thesis using l2 unfolding set_lru_cases Let_def by (simp del: hd_append2 hd_append)
qed

lemma apply_op_bounded:
  "length (cache c) \<le> maxSize c \<Longrightarrow>
     length (cache (apply_op c op)) \<le> maxSize (apply_op c op) \<and> maxSize (apply_op c op) = maxSize c"
  by (cases op) (simp_all add: length_set_lru le_trans[OF length_get_lru])

lemma run_ops_bounded:
  "length (cache c) \<le> maxSize c \<Longrightarrow>
     length (cache (foldl apply_op c ops)) \<le> maxSize c \<and> maxSize (foldl apply_op c ops) = maxSize c"
proof (induction ops arbitrary: c)
  case Nil
  then show ?case by simp
next
  case (Cons op ops)
  show ?case
    using apply_op_bounded[OF Cons.prems, of op] Cons.IH[of "apply_op c op"] by simp
qed

lemma last_use_snoc:
  "last_use (ops @ [op]) key = (if touches op = key then Suc (length ops) else last_use ops key)"
  by (simp add: last_use_def)

lemma last_use_rev_le: "last_use_rev ops key \<le> length ops"
  by (induction ops) auto

lemma last_use_le: "last_use ops key \<le> length ops"
  using last_use_rev_le[of "rev ops" key] by (simp add: last_use_def)

lemma keys_set_lru:
  "keys_lru (set_lru c key val) =
     (let ks = filter (\<lambda>k. k \<noteq> key) (keys_lru c) @ [key]
      in if length ks > maxSize c then filter (\<lambda>k. k \<noteq> hd ks) ks else ks)"
proof -
  let ?c2 = "map_delete key (cache c) @ [(key, val)]"
  let ?K2 = "filter (\<lambda>k. k \<noteq> key) (keys_lru c) @ [key]"
  have B: "map fst ?c2 = ?K2"
    by (simp add: keys_map_delete)
  have "fst (hd ?c2) = hd (map fst ?c2)" by (rule hd_map[symmetric]) simp
  then have A: "map fst (map_delete (fst (hd ?c2)) ?c2) = filter (\<lambda>k. k \<noteq> hd ?K2) ?K2"
    by (simp only: keys_map_delete B)
  have C: "length ?c2 = length ?K2"
    using arg_cong[OF B, of length] by (simp only: length_map)
  have "keys_lru (set_lru c key val) =
          (if maxSize c < length ?c2 then map fst (map_delete (fst (hd ?c2)) ?c2) else map fst ?c2)"
    unfolding set_lru_cases Let_def by (rule if_distrib)
  then show ?thesis unfolding Let_def by (simp only: A B C)
qed

lemma touch_ordered:
  assumes "lru_ordered ops c" "touches op = key"
  shows "distinct (filter (\<lambda>k. k \<noteq> key) (keys_lru c) @ [key]) \<and>
         sorted_wrt (\<lambda>a b. last_use (ops @ [op]) a < last_use (ops @ [op]) b)
           (filter (\<lambda>k. k \<noteq> key) (keys_lru c) @ [key]) \<and>
         list_all (\<lambda>k. 0 < last_use (ops @ [op]) k) (filter (\<lambda>k. k \<noteq> key) (keys_lru c) @ [key])"
proof -
  let ?ks = "filter (\<lambda>k. k \<noteq> key) (keys_lru c)"
  from assms(1) have d: "distinct (keys_lru c)"
    and s: "sorted_wrt (\<lambda>a b. last_use ops a < last_use ops b) (keys_lru c)"
    and p: "list_all (\<lambda>k. 0 < last_use ops k) (keys_lru c)"
    by (simp_all add: lru_ordered_def)
  have same: "\<And>k. k \<noteq> key \<Longrightarrow> last_use (ops @ [op]) k = last_use ops k"
    using assms(2) by (simp add: last_use_snoc)
  have "sorted_wrt (\<lambda>a b. last_use ops a < last_use ops b) ?ks"
    using s by (rule sorted_wrt_filter)
  then have s': "sorted_wrt (\<lambda>a b. last_use (ops @ [op]) a < last_use (ops @ [op]) b) ?ks"
    by (rule sorted_wrt_mono_rel[rotated]) (simp add: same)
  have top: "\<forall>k \<in> set ?ks. last_use (ops @ [op]) k < last_use (ops @ [op]) key"
    using assms(2) last_use_le[of ops] by (auto simp: last_use_snoc less_Suc_eq_le)
  have "list_all (\<lambda>k. 0 < last_use (ops @ [op]) k) ?ks"
    using p by (auto simp: list_all_iff same)
  moreover have "0 < last_use (ops @ [op]) key" using assms(2) by (simp add: last_use_snoc)
  ultimately show ?thesis using d s' top by (simp add: sorted_wrt_append)
qed

lemma ordered_filter:
  assumes "distinct ks" "sorted_wrt P ks" "list_all Q ks"
  shows "distinct (filter R ks) \<and> sorted_wrt P (filter R ks) \<and> list_all Q (filter R ks)"
  using assms by (simp add: sorted_wrt_filter list_all_iff)

lemma apply_op_ordered:
  assumes "lru_ordered ops c"
  shows "lru_ordered (ops @ [op]) (apply_op c op)"
proof (cases op)
  case (Get key)
  show ?thesis
  proof (cases "key \<in> set (keys_lru c)")
    case True
    then show ?thesis
      using touch_ordered[OF assms, of op key] Get
      by (simp add: lru_ordered_def keys_get_lru)
  next
    case False
    then have same: "\<And>k. k \<in> set (keys_lru c) \<Longrightarrow> last_use (ops @ [op]) k = last_use ops k"
      using Get by (auto simp: last_use_snoc)
    have "sorted_wrt (\<lambda>a b. last_use (ops @ [op]) a < last_use (ops @ [op]) b) (keys_lru c)"
      using assms by (auto simp: lru_ordered_def same intro: sorted_wrt_mono_rel[rotated])
    moreover have "list_all (\<lambda>k. 0 < last_use (ops @ [op]) k) (keys_lru c)"
      using assms by (auto simp: lru_ordered_def list_all_iff same)
    moreover have "keys_lru (apply_op c op) = keys_lru c"
      using False Get by (simp add: keys_get_lru)
    ultimately show ?thesis
      using assms by (simp add: lru_ordered_def)
  qed
next
  case (Set key val)
  have t: "touches op = key" using Set by simp
  let ?K2 = "filter (\<lambda>k. k \<noteq> key) (keys_lru c) @ [key]"
  let ?P = "\<lambda>a b. last_use (ops @ [op]) a < last_use (ops @ [op]) b"
  let ?Q = "\<lambda>k. 0 < last_use (ops @ [op]) k"
  from touch_ordered[OF assms t]
  have K2: "distinct ?K2" "sorted_wrt ?P ?K2" "list_all ?Q ?K2" by blast+
  have F: "distinct (filter (\<lambda>k. k \<noteq> hd ?K2) ?K2) \<and>
           sorted_wrt ?P (filter (\<lambda>k. k \<noteq> hd ?K2) ?K2) \<and>
           list_all ?Q (filter (\<lambda>k. k \<noteq> hd ?K2) ?K2)"
    by (rule ordered_filter[OF K2])
  have "keys_lru (apply_op c op) = ?K2 \<or> keys_lru (apply_op c op) = filter (\<lambda>k. k \<noteq> hd ?K2) ?K2"
    unfolding Set apply_op.simps keys_set_lru Let_def
    by (cases "maxSize c < length ?K2") (simp_all only: if_True if_False simp_thms)
  then show ?thesis
    unfolding lru_ordered_def using K2 F by (elim disjE) (simp_all only: simp_thms)
qed

lemma run_ops_ordered: "lru_ordered ops (foldl apply_op (new_LRUCache n) ops)"
proof (induction ops rule: rev_induct)
  case Nil
  then show ?case by (simp add: lru_ordered_def new_LRUCache_def)
next
  case (snoc op ops)
  then show ?case using apply_op_ordered[of ops _ op] by simp
qed

lemma evict_oldest:
  assumes "distinct (keys_lru c)" "key \<notin> set (keys_lru c)" "length (cache c) = maxSize c"
    "0 < maxSize c"
  shows "keys_lru (set_lru c key val) = tl (keys_lru c) @ [key]"
proof -
  have ne: "keys_lru c \<noteq> []" using assms(3,4) by (auto simp:)
  have f: "filter (\<lambda>k. k \<noteq> key) (keys_lru c) = keys_lru c"
    using assms(2) by (auto simp: filter_id_conv)
  have len: "length (keys_lru c) = maxSize c" using assms(3) by (simp add:)
  obtain k ks where ks: "keys_lru c = k # ks" using ne by (cases "keys_lru c") auto
  have "filter (\<lambda>x. x \<noteq> k) (k # ks @ [key]) = ks @ [key]"
    using assms(1,2) ks by (auto simp: filter_id_conv)
  then show ?thesis using len ks unfolding keys_set_lru f Let_def by simp
qed


lemma loadPartition_miss:
  assumes "\<not> has_lru (partitionCache d) prefix" "partitionIndex d = Some index"
    "map_of index prefix = Some info"
    "fs (basePath d @ ''/'' @ info_file info) = Some (PartitionFile part)"
  shows "loadPartition fs d prefix =
           Inr (part_words part,
                d\<lparr>partitionCache := set_lru (partitionCache d) prefix (part_words part)\<rparr>)"
  using assms by (simp add: loadPartition_def)

text \<open>
  C9. Starting from an empty LRUCache of capacity \<open>n\<close>, after any sequence of get and
  set operations the cache holds at most \<open>n\<close> entries. When a set of a new key finds the
  cache full, exactly the first key in the cache order is dropped, and that key is the
  least recently used one: every key that stays was named by a later get or set. A
  lookup of a prefix that is not in the partition cache (never loaded, or evicted) reads
  the partition file again and returns what the file holds now.
\<close>

theorem lru_cache_capacity_and_eviction:
  "length (cache (foldl apply_op (new_LRUCache n) ops)) \<le> n \<and>
   (\<not> has_lru (foldl apply_op (new_LRUCache n) ops) key \<and>
    length (cache (foldl apply_op (new_LRUCache n) ops)) = n \<and> 0 < n \<longrightarrow>
      keys_lru (set_lru (foldl apply_op (new_LRUCache n) ops) key val) =
        tl (keys_lru (foldl apply_op (new_LRUCache n) ops)) @ [key] \<and>
      list_all (\<lambda>k. last_use ops (hd (keys_lru (foldl apply_op (new_LRUCache n) ops))) < last_use ops k)
        (tl (keys_lru (foldl apply_op (new_LRUCache n) ops)))) \<and>
   (\<not> has_lru (partitionCache d) prefix \<and> partitionIndex d = Some index \<and>
    map_of index prefix = Some info \<and>
    fs (basePath d @ ''/'' @ info_file info) = Some (PartitionFile part) \<longrightarrow>
      loadPartition fs d prefix =
        Inr (part_words part,
             d\<lparr>partitionCache := set_lru (partitionCache d) prefix (part_words part)\<rparr>))"
proof (intro conjI impI)
  let ?c = "foldl apply_op (new_LRUCache n) ops"
  have m: "maxSize ?c = n"
    using run_ops_bounded[of "new_LRUCache n" ops] by (simp add: new_LRUCache_def)
  show "length (cache ?c) \<le> n"
    using run_ops_bounded[of "new_LRUCache n" ops] by (simp add: new_LRUCache_def)
  {
    assume a: "\<not> has_lru ?c key \<and> length (cache ?c) = n \<and> 0 < n"
    have ord: "lru_ordered ops ?c" by (rule run_ops_ordered)
    then have d: "distinct (keys_lru ?c)" by (simp add: lru_ordered_def)
    show "keys_lru (set_lru ?c key val) = tl (keys_lru ?c) @ [key]"
      using a d m by (intro evict_oldest) (simp_all add: has_lru_iff)
    have "keys_lru ?c \<noteq> []" using a by auto
    then obtain k ks where ks: "keys_lru ?c = k # ks" by (cases "keys_lru ?c") auto
    from ord have "sorted_wrt (\<lambda>a b. last_use ops a < last_use ops b) (k # ks)"
      unfolding lru_ordered_def ks by blast
    then show "list_all (\<lambda>k. last_use ops (hd (keys_lru ?c)) < last_use ops k) (tl (keys_lru ?c))"
      unfolding ks by (simp add: list_all_iff)
  }
  assume "\<not> has_lru (partitionCache d) prefix \<and> partitionIndex d = Some index \<and>
    map_of index prefix = Some info \<and>
    fs (basePath d @ ''/'' @ info_file info) = Some (PartitionFile part)"
  then show "loadPartition fs d prefix =
        Inr (part_words part,
             d\<lparr>partitionCache := set_lru (partitionCache d) prefix (part_words part)\<rparr>)"
    using loadPartition_miss[of d prefix index info fs part] by blast
qed

lemma example_three_loads_eq:
  "loadAll example_files example_paged_typo [''fo'', ''ba'', ''on''] = Inr example_three_loads"
  by (simp add: paged_eval example_paged_typo_def example_three_loads_def
        example_files_partitions)

theorem lru_cache_capacity_and_eviction_witness:
  "\<not> has_lru (foldl apply_op (new_LRUCache 2) [Set ''aa'' [1::nat], Set ''bb'' [2], Get ''aa'']) ''cc'' \<and>
   keys_lru (foldl apply_op (new_LRUCache 2) [Set ''aa'' [1::nat], Set ''bb'' [2], Get ''aa'']) =
     [''bb'', ''aa''] \<and>
   keys_lru (set_lru (foldl apply_op (new_LRUCache 2) [Set ''aa'' [1::nat], Set ''bb'' [2], Get ''aa''])
               ''cc'' [3]) = [''aa'', ''cc''] \<and>
   loadAll example_files example_paged_typo [''fo'', ''ba'', ''on''] = Inr example_three_loads \<and>
   \<not> has_lru (partitionCache example_three_loads) ''fo'' \<and>
   loadPartition example_files example_three_loads ''fo'' =
     Inr ([\<lparr>word_w = ''foo'', word_r = Some [ [''A''] ]\<rparr>],
          example_three_loads
            \<lparr>partitionCache :=
               set_lru (partitionCache example_three_loads) ''fo''
                 [\<lparr>word_w = ''foo'', word_r = Some [ [''A''] ]\<rparr>]\<rparr>)"
proof -
  let ?c = "foldl apply_op (new_LRUCache 2) [Set ''aa'' [1::nat], Set ''bb'' [2], Get ''aa'']"
  let ?index = "[(''na'', \<lparr>info_file = ''words/na.json'', info_count = 1\<rparr>),
              (''ba'', \<lparr>info_file = ''words/ba.json'', info_count = 1\<rparr>),
              (''fo'', \<lparr>info_file = ''words/fo.json'', info_count = 1\<rparr>),
              (''on'', \<lparr>info_file = ''words/on.json'', info_count = 1\<rparr>),
              (''th'', \<lparr>info_file = ''words/th.json'', info_count = 1\<rparr>)]"
  let ?part = "\<lparr>part_prefix = ''fo'', part_words = [\<lparr>word_w = ''foo'', word_r = Some [ [''A''] ]\<rparr>]\<rparr>"
  have k: "keys_lru ?c = [''bb'', ''aa'']"
    by (simp add: new_LRUCache_def set_lru_def get_lru_def has_lru_def map_delete_def)
  have len: "length (cache ?c) = 2"
    by (simp add: new_LRUCache_def set_lru_def get_lru_def has_lru_def map_delete_def)
  have c: "\<not> has_lru ?c ''cc'' \<and> length (cache ?c) = 2 \<and> 0 < (2::nat)"
    using k len by (simp add: has_lru_iff del: foldl_Cons)
  have p: "\<not> has_lru (partitionCache example_three_loads) ''fo'' \<and>
           partitionIndex example_three_loads = Some ?index \<and>
           map_of ?index ''fo'' = Some \<lparr>info_file = ''words/fo.json'', info_count = 1\<rparr> \<and>
           example_files (basePath example_three_loads @ ''/'' @
              info_file \<lparr>info_file = ''words/fo.json'', info_count = 1\<rparr>) = Some (PartitionFile ?part)"
    by (simp add: example_three_loads_def example_paged_typo_def has_lru_def basePath_def
          example_files_partitions)
  show ?thesis
    using lru_cache_capacity_and_eviction[of 2 "[Set ''aa'' [1::nat], Set ''bb'' [2], Get ''aa'']"
        "''cc''" "[3]" example_three_loads "''fo''" ?index
        "\<lparr>info_file = ''words/fo.json'', info_count = 1\<rparr>" example_files ?part]
      k c p example_three_loads_eq
    by (simp del: foldl_Cons)
qed

section \<open>Queries depend on the dictionary, not on the caches\<close>

lemma same_dictionary_refl [simp]: "same_dictionary d d"
  by (simp add: same_dictionary_def)

lemma same_dictionary_caches [simp]:
  "same_dictionary d (d\<lparr>partitionCache := c\<rparr>)"
  "same_dictionary d (d\<lparr>notFoundCache := n\<rparr>)"
  "same_dictionary d (d\<lparr>partitionCache := c, notFoundCache := n\<rparr>)"
  by (simp_all add: same_dictionary_def)

lemma same_dictionary_fields:
  assumes "same_dictionary d d'"
  shows "loaded d' = loaded d" "preCalculated d' = preCalculated d" "flags d' = flags d"
    "dictionaryTable d' = dictionaryTable d" "compoundRules d' = compoundRules d"
    "bloomFilter d' = bloomFilter d" "partitionIndex d' = partitionIndex d"
    "dictionary d' = dictionary d" "preCalculatedPath d' = preCalculatedPath d"
    "alphabet d' = alphabet d" "memoized d' = memoized d"
    "replacementTable d' = replacementTable d" "compoundRuleCodes d' = compoundRuleCodes d"
proof -
  let ?e = "d'\<lparr>partitionCache := partitionCache d, notFoundCache := notFoundCache d\<rparr>"
  have e: "?e = d" using assms by (simp add: same_dictionary_def)
  show "loaded d' = loaded d" using arg_cong[OF e, of loaded] by simp
  show "preCalculated d' = preCalculated d" using arg_cong[OF e, of preCalculated] by simp
  show "flags d' = flags d" using arg_cong[OF e, of flags] by simp
  show "dictionaryTable d' = dictionaryTable d" using arg_cong[OF e, of dictionaryTable] by simp
  show "compoundRules d' = compoundRules d" using arg_cong[OF e, of compoundRules] by simp
  show "bloomFilter d' = bloomFilter d" using arg_cong[OF e, of bloomFilter] by simp
  show "partitionIndex d' = partitionIndex d" using arg_cong[OF e, of partitionIndex] by simp
  show "dictionary d' = dictionary d" using arg_cong[OF e, of dictionary] by simp
  show "preCalculatedPath d' = preCalculatedPath d" using arg_cong[OF e, of preCalculatedPath] by simp
  show "alphabet d' = alphabet d" using arg_cong[OF e, of alphabet] by simp
  show "memoized d' = memoized d" using arg_cong[OF e, of memoized] by simp
  show "replacementTable d' = replacementTable d" using arg_cong[OF e, of replacementTable] by simp
  show "compoundRuleCodes d' = compoundRuleCodes d" using arg_cong[OF e, of compoundRuleCodes] by simp
qed

lemma same_dictionary_trans:
  assumes "same_dictionary d d'" "same_dictionary d' d''"
  shows "same_dictionary d d''"
proof -
  have "d''\<lparr>partitionCache := partitionCache d', notFoundCache := notFoundCache d'\<rparr> = d'"
    using assms(2) by (simp add: same_dictionary_def)
  then have "d''\<lparr>partitionCache := partitionCache d', notFoundCache := notFoundCache d'\<rparr>
               \<lparr>partitionCache := partitionCache d, notFoundCache := notFoundCache d\<rparr> =
             d'\<lparr>partitionCache := partitionCache d, notFoundCache := notFoundCache d\<rparr>"
    by simp
  then show ?thesis using assms(1) by (simp add: same_dictionary_def)
qed

lemma same_dictionary_pure:
  assumes "same_dictionary d d'"
  shows "storedWords fs d' = storedWords fs d" "flagIn d' = flagIn d"
    "matchesCompoundRule d' = matchesCompoundRule d" "exactHit fs d' = exactHit fs d"
    "wordHasFlag fs d' = wordHasFlag fs d" "files_ok fs d' = files_ok fs d"
    "checkValue fs d' = checkValue fs d" "basePath d' = basePath d"
proof -
  note f = same_dictionary_fields[OF assms]
  show b: "basePath d' = basePath d" by (simp add: basePath_def f)
  show s: "storedWords fs d' = storedWords fs d"
    by (rule ext) (simp add: storedWords_def f b cong: option.case_cong)
  show fl: "flagIn d' = flagIn d" by (intro ext) (simp add: flagIn_def f)
  show m: "matchesCompoundRule d' = matchesCompoundRule d"
    by (intro ext) (simp add: matchesCompoundRule_def matchesSomeRule_def f cong: option.case_cong)
  show e: "exactHit fs d' = exactHit fs d" by (intro ext) (simp add: exactHit_def f s fl m cong: option.case_cong)
  show w: "wordHasFlag fs d' = wordHasFlag fs d" by (intro ext) (simp add: wordHasFlag_def f s fl cong: option.case_cong)
  show "files_ok fs d' = files_ok fs d" by (simp add: files_ok_def f b cong: option.case_cong)
  have u: "uncapitalizedValue fs d' = uncapitalizedValue fs d"
    by (intro ext) (simp add: uncapitalizedValue_def e w cong: list.case_cong)
  show "checkValue fs d' = checkValue fs d"
    by (intro ext) (simp only: checkValue_def e w u)
qed

lemma set_cache_set_lru: "set (cache (set_lru c key val)) \<subseteq> insert (key, val) (set (cache c))"
  unfolding set_lru_cases Let_def by (auto simp: map_delete_def)

lemma set_cache_get_lru: "set (cache (snd (get_lru c key))) \<subseteq> set (cache c)"
  by (auto simp: get_lru_def map_delete_def split: option.splits dest: map_of_SomeD)

lemma get_lru_hit:
  assumes "has_lru c key"
  shows "\<exists>val. fst (get_lru c key) = Some val \<and> (key, val) \<in> set (cache c)"
  using assms by (auto simp: has_lru_def get_lru_def dest: map_of_SomeD)

lemma has_lru_entry: "has_lru c key \<Longrightarrow> \<exists>val. (key, val) \<in> set (cache c)"
  by (auto simp: has_lru_def dest: map_of_SomeD)

lemma step_refl: "instance_ok fs d \<Longrightarrow> step fs d d"
  by (simp add: step_def)

lemma step_trans: "step fs d d' \<Longrightarrow> step fs d' d'' \<Longrightarrow> step fs d d''"
  by (auto simp: step_def intro: same_dictionary_trans)

lemma step_ok: "step fs d d' \<Longrightarrow> instance_ok fs d'"
  by (simp add: step_def)

lemma loadPartition_sem:
  assumes "files_ok fs d" "caches_coherent fs d"
  shows "\<exists>c. loadPartition fs d prefix = Inr (storedWords fs d prefix, d\<lparr>partitionCache := c\<rparr>) \<and>
             list_all (\<lambda>e. snd e = storedWords fs d (fst e)) (cache c)"
proof (cases "has_lru (partitionCache d) prefix")
  case True
  obtain val where v: "fst (get_lru (partitionCache d) prefix) = Some val"
    "(prefix, val) \<in> set (cache (partitionCache d))"
    using get_lru_hit[OF True] by blast
  have co: "list_all (\<lambda>e. snd e = storedWords fs d (fst e)) (cache (partitionCache d))"
    using assms(2) by (simp add: caches_coherent_def)
  then have "val = storedWords fs d prefix" using v(2) by (auto simp: list_all_iff)
  moreover have "list_all (\<lambda>e. snd e = storedWords fs d (fst e))
                   (cache (snd (get_lru (partitionCache d) prefix)))"
    using co set_cache_get_lru[of "partitionCache d" prefix] by (auto simp: list_all_iff)
  ultimately show ?thesis
    using True v(1) by (cases "get_lru (partitionCache d) prefix") (auto simp: loadPartition_def)
next
  case False
  obtain index where ix: "partitionIndex d = Some index"
    and files: "list_all (\<lambda>e. isPartitionFile (fs (basePath d @ ''/'' @ info_file (snd e)))) index"
    using assms(1) by (auto simp: files_ok_def split: option.splits)
  have co: "list_all (\<lambda>e. snd e = storedWords fs d (fst e)) (cache (partitionCache d))"
    using assms(2) by (simp add: caches_coherent_def)
  show ?thesis
  proof (cases "map_of index prefix")
    case None
    have "d\<lparr>partitionCache := partitionCache d\<rparr> = d" by simp
    then show ?thesis
      using False ix None co
      by (intro exI[of _ "partitionCache d"]) (simp add: loadPartition_def storedWords_def)
  next
    case (Some info)
    then have "(prefix, info) \<in> set index" by (rule map_of_SomeD)
    then have "isPartitionFile (fs (basePath d @ ''/'' @ info_file info))"
      using files by (auto simp: list_all_iff)
    then obtain part where p: "fs (basePath d @ ''/'' @ info_file info) = Some (PartitionFile part)"
      by (auto simp: isPartitionFile_def split: option.splits json_file.splits)
    have sw: "storedWords fs d prefix = part_words part"
      using ix Some p by (simp add: storedWords_def)
    have "list_all (\<lambda>e. snd e = storedWords fs d (fst e))
            (cache (set_lru (partitionCache d) prefix (part_words part)))"
      using co sw set_cache_set_lru[of "partitionCache d" prefix "part_words part"]
      by (auto simp: list_all_iff)
    then show ?thesis
      using False ix Some p sw by (auto simp: loadPartition_def)
  qed
qed

lemma instance_ok_partitionCache:
  assumes "instance_ok fs d" "preCalculated d"
    "list_all (\<lambda>e. snd e = storedWords fs d (fst e)) (cache c)"
  shows "step fs d (d\<lparr>partitionCache := c\<rparr>)"
proof -
  let ?d = "d\<lparr>partitionCache := c\<rparr>"
  have s: "same_dictionary d ?d" by simp
  note p = same_dictionary_pure[OF s]
  have "caches_coherent fs ?d"
    using assms by (simp add: caches_coherent_def instance_ok_def p)
  then show ?thesis using assms s by (simp add: step_def instance_ok_def p)
qed

lemma instance_ok_notFound:
  assumes "instance_ok fs d" "preCalculated d" "\<not> exactHit fs d word"
  shows "step fs d (d\<lparr>notFoundCache := add_lru (notFoundCache d) word\<rparr>)"
proof -
  let ?d = "d\<lparr>notFoundCache := add_lru (notFoundCache d) word\<rparr>"
  have s: "same_dictionary d ?d" by simp
  note p = same_dictionary_pure[OF s]
  have "list_all (\<lambda>e. \<not> exactHit fs d (fst e)) (cache (notFoundCache d))"
    using assms by (simp add: instance_ok_def caches_coherent_def)
  then have "list_all (\<lambda>e. \<not> exactHit fs d (fst e)) (cache (add_lru (notFoundCache d) word))"
    using assms(3) set_cache_set_lru[of "notFoundCache d" word True]
    by (auto simp: list_all_iff add_lru_def)
  then have "caches_coherent fs ?d"
    using assms by (simp add: caches_coherent_def instance_ok_def p)
  then show ?thesis using assms s by (simp add: step_def instance_ok_def p)
qed

lemma hasFlag_given:
  "loaded d \<Longrightarrow> hasFlag fs d word flag (Some given) = Inr (flagIn d flag given, d)"
  by (simp add: hasFlag_def flagIn_def)

lemma hasFlag_sem:
  assumes "instance_ok fs d"
  shows "\<exists>d'. hasFlag fs d word flag None = Inr (wordHasFlag fs d word flag, d') \<and> step fs d d'"
proof (cases "preCalculated d")
  case False
  have "hasFlag fs d word flag None = Inr (wordHasFlag fs d word flag, d)"
    using assms False
    by (auto simp: hasFlag_def wordHasFlag_def instance_ok_def flagIn_def
             split: option.splits jsval.splits)
  then show ?thesis using assms by (auto intro: step_refl)
next
  case True
  then have ok: "files_ok fs d" "caches_coherent fs d" "loaded d"
    using assms by (simp_all add: instance_ok_def)
  obtain c where c: "loadPartition fs d (getPartitionPrefix word) =
      Inr (storedWords fs d (getPartitionPrefix word), d\<lparr>partitionCache := c\<rparr>)"
    "list_all (\<lambda>e. snd e = storedWords fs d (fst e)) (cache c)"
    using loadPartition_sem[OF ok(1,2)] by blast
  have st: "step fs d (d\<lparr>partitionCache := c\<rparr>)"
    by (rule instance_ok_partitionCache[OF assms True c(2)])
  show ?thesis
  proof (cases "flags d flag")
    case None
    then have "hasFlag fs d word flag None = Inr (wordHasFlag fs d word flag, d)"
      using ok(3) True by (auto simp: hasFlag_def wordHasFlag_def flagIn_def split: option.splits)
    then show ?thesis using assms by (auto intro: step_refl)
  next
    case (Some v)
    have "flagIn (d\<lparr>partitionCache := c\<rparr>) = flagIn d"
      by (rule same_dictionary_pure) simp
    then have "hasFlag fs d word flag None =
          Inr (wordHasFlag fs d word flag, d\<lparr>partitionCache := c\<rparr>)"
      using ok(3) True Some c(1)
      by (simp add: hasFlag_def wordHasFlag_def Let_def split: option.splits)
    then show ?thesis using st by blast
  qed
qed

lemma checkExact_codes_sem:
  "loaded d \<Longrightarrow>
     checkExact_codes fs d word ruleCodes =
       Inr (list_ex (\<lambda>codes. \<not> flagIn d ''ONLYINCOMPOUND'' codes) ruleCodes, d)"
  by (induction ruleCodes) (simp_all add: hasFlag_given)

lemma checkExact_sem:
  assumes "instance_ok fs d"
  shows "\<exists>d'. checkExact fs d word = Inr (exactHit fs d word, d') \<and> step fs d d'"
proof (cases "preCalculated d")
  case False
  have "checkExact fs d word = Inr (exactHit fs d word, d)"
    using assms False
    by (simp add: checkExact_def exactHit_def instance_ok_def checkExact_codes_sem
             split: option.splits)
  then show ?thesis using assms by (auto intro: step_refl)
next
  case True
  then have ok: "files_ok fs d" "caches_coherent fs d" "loaded d"
    using assms by (simp_all add: instance_ok_def)
  have ce: "checkExact fs d word = checkPreCalculated fs d word"
    using ok(3) True by (simp add: checkExact_def)
  obtain bf where bf: "bloomFilter d = Some bf" using ok(1) by (auto simp: files_ok_def)
  show ?thesis
  proof (cases "has_lru (notFoundCache d) word")
    case h: True
    then obtain val where "(word, val) \<in> set (cache (notFoundCache d))"
      using has_lru_entry by fastforce
    then have "\<not> exactHit fs d word"
      using ok(2) by (auto simp: caches_coherent_def list_all_iff)
    then have "checkExact fs d word = Inr (exactHit fs d word, d)"
      using h by (simp add: ce checkPreCalculated_def)
    then show ?thesis using assms by (auto intro: step_refl)
  next
    case h: False
    show ?thesis
    proof (cases "mightContain bf word")
      case m: False
      then have nh: "\<not> exactHit fs d word" using True bf by (simp add: exactHit_def)
      have "checkExact fs d word =
              Inr (exactHit fs d word, d\<lparr>notFoundCache := add_lru (notFoundCache d) word\<rparr>)"
        using h bf m nh by (simp add: ce checkPreCalculated_def)
      then show ?thesis using instance_ok_notFound[OF assms True nh] by blast
    next
      case m: True
      obtain c where c: "loadPartition fs d (getPartitionPrefix word) =
          Inr (storedWords fs d (getPartitionPrefix word), d\<lparr>partitionCache := c\<rparr>)"
        "list_all (\<lambda>e. snd e = storedWords fs d (fst e)) (cache c)"
        using loadPartition_sem[OF ok(1,2)] by blast
      let ?d1 = "d\<lparr>partitionCache := c\<rparr>"
      have st: "step fs d ?d1"
        by (rule instance_ok_partitionCache[OF assms True c(2)])
      have s1: "same_dictionary d ?d1" by simp
      note p = same_dictionary_pure[OF s1]
      let ?found = "binarySearch (storedWords fs d (getPartitionPrefix word)) word"
      show ?thesis
      proof (cases "?found \<or> matchesCompoundRule d word")
        case t: True
        then have eh: "exactHit fs d word" using True bf m by (simp add: exactHit_def)
        have "checkExact fs d word = Inr (True, ?d1)"
          using h bf m c(1) t by (auto simp: ce checkPreCalculated_def Let_def p)
        then show ?thesis using st eh by auto
      next
        case f: False
        then have nh: "\<not> exactHit fs d word" using True bf m by (simp add: exactHit_def)
        then have nh1: "\<not> exactHit fs ?d1 word" by (simp add: p)
        have pc1: "preCalculated ?d1" using True by simp
        have "checkExact fs d word =
                Inr (False, ?d1\<lparr>notFoundCache := add_lru (notFoundCache ?d1) word\<rparr>)"
          using h bf m c(1) f by (simp add: ce checkPreCalculated_def Let_def p)
        moreover have "step fs d (?d1\<lparr>notFoundCache := add_lru (notFoundCache ?d1) word\<rparr>)"
          using step_trans[OF st instance_ok_notFound[OF step_ok[OF st] pc1 nh1] ] .
        ultimately show ?thesis using nh by auto
      qed
    qed
  qed
qed


lemma step_pure:
  assumes "step fs d d'"
  shows "exactHit fs d' = exactHit fs d" "wordHasFlag fs d' = wordHasFlag fs d"
    "checkValue fs d' = checkValue fs d" "uncapitalizedValue fs d' = uncapitalizedValue fs d"
proof -
  have s: "same_dictionary d d'" using assms by (simp add: step_def)
  show e: "exactHit fs d' = exactHit fs d" and w: "wordHasFlag fs d' = wordHasFlag fs d"
    and "checkValue fs d' = checkValue fs d"
    by (rule same_dictionary_pure[OF s])+
  show "uncapitalizedValue fs d' = uncapitalizedValue fs d"
    by (intro ext) (simp add: uncapitalizedValue_def e w cong: list.case_cong)
qed

lemma check_uncapitalized_sem:
  assumes "instance_ok fs d"
  shows "\<exists>d'. check_uncapitalized fs d t = returns (uncapitalizedValue fs d t) d' \<and> step fs d d'"
proof (cases t)
  case Nil
  then have "check_uncapitalized fs d t = returns (uncapitalizedValue fs d t) d"
    by (simp add: check_uncapitalized_def uncapitalizedValue_def returns_def)
  then show ?thesis using step_refl[OF assms] by blast
next
  case (Cons c rest)
  let ?u = "toLowerChar c # rest"
  show ?thesis
  proof (cases "?u = t")
    case True
    then have "check_uncapitalized fs d t = returns (uncapitalizedValue fs d t) d"
      using Cons by (simp add: check_uncapitalized_def uncapitalizedValue_def returns_def)
    then show ?thesis using step_refl[OF assms] by blast
  next
    case False
    obtain d1 where d1: "hasFlag fs d ?u ''KEEPCASE'' None = Inr (wordHasFlag fs d ?u ''KEEPCASE'', d1)"
      "step fs d d1"
      using hasFlag_sem[OF assms] by blast
    obtain d2 where d2: "checkExact fs d1 ?u = Inr (exactHit fs d1 ?u, d2)" "step fs d1 d2"
      using checkExact_sem[OF step_ok[OF d1(2)] ] by blast
    have e: "exactHit fs d1 ?u = exactHit fs d ?u" by (simp add: step_pure[OF d1(2)])
    show ?thesis
    proof (cases "wordHasFlag fs d ?u ''KEEPCASE''")
      case True
      then have "check_uncapitalized fs d t = returns (uncapitalizedValue fs d t) d1"
        using Cons False d1(1)
        by (simp add: check_uncapitalized_def uncapitalizedValue_def returns_def)
      then show ?thesis using d1(2) by blast
    next
      case kc: False
      then have "check_uncapitalized fs d t = returns (uncapitalizedValue fs d t) d2"
        using Cons False d1(1) d2(1) e
        by (simp add: check_uncapitalized_def uncapitalizedValue_def returns_def)
      then show ?thesis using step_trans[OF d1(2) d2(2)] by blast
    qed
  qed
qed

lemma check_uppercase_sem:
  assumes "instance_ok fs d"
  shows "\<exists>d'. check_uppercase fs d t =
           Inr (if wordHasFlag fs d (charAt0 t @ toLowerCase (drop 1 t)) ''KEEPCASE'' then Some False
                else if exactHit fs d (charAt0 t @ toLowerCase (drop 1 t)) then Some True
                else if exactHit fs d (toLowerCase t) then Some True
                else None, d') \<and> step fs d d'"
proof -
  let ?cap = "charAt0 t @ toLowerCase (drop 1 t)"
  obtain d1 where d1: "hasFlag fs d ?cap ''KEEPCASE'' None = Inr (wordHasFlag fs d ?cap ''KEEPCASE'', d1)"
    "step fs d d1"
    using hasFlag_sem[OF assms] by blast
  obtain d2 where d2: "checkExact fs d1 ?cap = Inr (exactHit fs d1 ?cap, d2)" "step fs d1 d2"
    using checkExact_sem[OF step_ok[OF d1(2)] ] by blast
  obtain d3 where d3: "checkExact fs d2 (toLowerCase t) = Inr (exactHit fs d2 (toLowerCase t), d3)"
    "step fs d2 d3"
    using checkExact_sem[OF step_ok[OF d2(2)] ] by blast
  note s2 = step_trans[OF d1(2) d2(2)]
  note s3 = step_trans[OF s2 d3(2)]
  have e1: "exactHit fs d1 ?cap = exactHit fs d ?cap" by (simp add: step_pure[OF d1(2)])
  have e2: "exactHit fs d2 (toLowerCase t) = exactHit fs d (toLowerCase t)"
    by (simp add: step_pure[OF s2])
  show ?thesis
  proof (cases "wordHasFlag fs d ?cap ''KEEPCASE''")
    case True
    then show ?thesis using d1 by (auto simp: check_uppercase_def Let_def)
  next
    case kc: False
    show ?thesis
    proof (cases "exactHit fs d ?cap")
      case True
      then show ?thesis using kc d1(1) d2(1) e1 s2 by (auto simp: check_uppercase_def Let_def)
    next
      case False
      then show ?thesis
        using kc d1(1) d2(1) d3(1) e1 e2 s3 by (auto simp: check_uppercase_def Let_def)
    qed
  qed
qed

lemma check_sem:
  assumes "instance_ok fs d"
  shows "\<exists>d'. check fs d aWord = returns (checkValue fs d aWord) d' \<and> step fs d d'"
proof (cases "aWord = []")
  case True
  then have "check fs d aWord = returns (checkValue fs d aWord) d"
    using assms by (simp add: check_def checkValue_def returns_def instance_ok_def)
  then show ?thesis using step_refl[OF assms] by blast
next
  case ne: False
  let ?t = "trim aWord"
  let ?cap = "charAt0 ?t @ toLowerCase (drop 1 ?t)"
  have l: "loaded d" using assms by (simp add: instance_ok_def)
  obtain d1 where d1: "checkExact fs d ?t = Inr (exactHit fs d ?t, d1)" "step fs d d1"
    using checkExact_sem[OF assms] by blast
  show ?thesis
  proof (cases "exactHit fs d ?t")
    case True
    then have "check fs d aWord = returns (checkValue fs d aWord) d1"
      using ne l d1(1) by (simp add: check_def checkValue_def returns_def Let_def)
    then show ?thesis using d1(2) by blast
  next
    case miss: False
    obtain d3 where d3: "check_uncapitalized fs d1 ?t = returns (uncapitalizedValue fs d1 ?t) d3"
      "step fs d1 d3"
      using check_uncapitalized_sem[OF step_ok[OF d1(2)] ] by blast
    have u1: "uncapitalizedValue fs d1 ?t = uncapitalizedValue fs d ?t"
      by (simp add: step_pure[OF d1(2)])
    show ?thesis
    proof (cases "toUpperCase ?t = ?t")
      case False
      then have "check fs d aWord = returns (checkValue fs d aWord) d3"
        using ne l d1(1) miss d3(1) u1 by (simp add: check_def checkValue_def Let_def)
      then show ?thesis using step_trans[OF d1(2) d3(2)] by blast
    next
      case up: True
      obtain d2 where d2: "check_uppercase fs d1 ?t =
           Inr (if wordHasFlag fs d1 ?cap ''KEEPCASE'' then Some False
                else if exactHit fs d1 ?cap then Some True
                else if exactHit fs d1 (toLowerCase ?t) then Some True
                else None, d2)" "step fs d1 d2"
        using check_uppercase_sem[OF step_ok[OF d1(2)] ] by blast
      note s2 = step_trans[OF d1(2) d2(2)]
      obtain d4 where d4: "check_uncapitalized fs d2 ?t = returns (uncapitalizedValue fs d2 ?t) d4"
        "step fs d2 d4"
        using check_uncapitalized_sem[OF step_ok[OF d2(2)] ] by blast
      have u2: "uncapitalizedValue fs d2 ?t = uncapitalizedValue fs d ?t"
        by (simp add: step_pure[OF s2])
      note p1 = step_pure[OF d1(2)]
      show ?thesis
      proof (cases "wordHasFlag fs d ?cap ''KEEPCASE'' \<or> exactHit fs d ?cap \<or> exactHit fs d (toLowerCase ?t)")
        case True
        then have "check fs d aWord = returns (checkValue fs d aWord) d2"
          using ne l d1(1) miss up d2(1)
          by (auto simp: check_def checkValue_def Let_def p1 returns_def)
        then show ?thesis using s2 by blast
      next
        case False
        then have "check fs d aWord = returns (checkValue fs d aWord) d4"
          using ne l d1(1) miss up d2(1) d4(1) u2
          by (auto simp: check_def checkValue_def Let_def p1)
        then show ?thesis using step_trans[OF s2 d4(2)] by blast
      qed
    qed
  qed
qed



section \<open>Exact lookups in the in-memory table\<close>

lemma checkExact_memory:
  assumes "loaded d" "\<not> preCalculated d"
  shows "checkExact fs d word = Inr (exactHit fs d word, d)"
  using assms
  by (simp add: checkExact_def exactHit_def checkExact_codes_sem split: option.splits)

lemma compile_two_codes:
  assumes "map_of codes [a] = Some ws1" "map_of codes [b] = Some ws2"
    "compileCompoundRule codes [a, b] = Some rule"
  shows "rule = [(Group ws1, Once), (Group ws2, Once)]"
  using assms
  by (auto simp: compileCompoundRule_def expressionTokens_def token_atom_def
           split: if_splits option.splits)

lemma atom_matches_member: "w \<in> set ws \<Longrightarrow> atom_matches (Group ws) w"
  by (auto simp: list_ex_iff)

lemma matches_two_groups:
  assumes "w1 \<in> set ws1" "w2 \<in> set ws2"
  shows "regexp_matches [(Group ws1, Once), (Group ws2, Once)] (w1 @ w2)"
proof -
  have "atom_matches (Group ws2) (take (length w2) w2) \<and> regexp_matches [] (drop (length w2) w2)"
    using assms(2) by (simp add: atom_matches_member del: atom_matches.simps)
  then have r: "regexp_matches [(Group ws2, Once)] w2"
    unfolding regexp_matches.simps list_ex_iff
    by (intro bexI[of _ "length w2"]) simp_all
  have "atom_matches (Group ws1) (take (length w1) (w1 @ w2)) \<and>
        regexp_matches [(Group ws2, Once)] (drop (length w1) (w1 @ w2))"
    using assms(1) r by (simp add: atom_matches_member del: atom_matches.simps regexp_matches.simps)
  then show ?thesis
    unfolding regexp_matches.simps(2)[of "Group ws1"] list_ex_iff
    by (intro bexI[of _ "length w1"]) simp_all
qed

lemma ascii_simps [simp]:
  "ascii [] = True" "ascii (c # cs) = (code_unit c < 128 \<and> ascii cs)"
  by (simp_all add: ascii_def isAscii_def)

text \<open>
  C3 (as the claim states it, refuted). The in-memory dictionary \<open>example_nomin\<close>
  configures no compound minimum. The word "FOOBAR" is not registered, so it is no plain
  dictionary hit; there is no minimum for its length to meet; and it matches the compound
  matcher built from "foo" and "bar", which ignores case. It is a compound-matcher hit,
  yet \<open>checkExact\<close> returns false: the code tries the matchers only when a minimum is
  configured.
\<close>

theorem checkExact_matcher_hit_without_minimum:
  "map_of (dictionaryTable example_nomin) ''FOOBAR'' = None \<and>
   flags example_nomin ''COMPOUNDMIN'' = None \<and>
   compoundRules example_nomin = [example_rule] \<and>
   regexp_matches example_rule ''FOOBAR'' \<and>
   checkExact no_files example_nomin ''FOOBAR'' = Inr (False, example_nomin)"
  by (simp add: query_eval string_eval example_eval upt_conv_Cons)

text \<open>
  C3 (amended). For every loaded in-memory dictionary whose compound minimum, if it is
  configured, is a decimal numeral, and for every word of ASCII characters, \<open>checkExact\<close>
  returns true iff the word is registered with at least one code set lacking the
  only-in-compound flag, or is registered with no codes, or is not registered, does not
  name a property that the table inherits from \<open>Object.prototype\<close>, the compound minimum
  is configured, the word's length meets it and the word matches a compound matcher. The
  dictionary is left unchanged.
\<close>

theorem checkExact_in_memory:
  assumes "loaded d" and "\<not> preCalculated d" and "ascii word" and "decimalMinimum d"
  shows "checkExact fs d word =
           Inr ((\<exists>ruleCodes. map_of (dictionaryTable d) word = Some (Some ruleCodes) \<and>
                   (\<exists>codes \<in> set ruleCodes. \<not> flagIn d ''ONLYINCOMPOUND'' codes)) \<or>
                map_of (dictionaryTable d) word = Some None \<or>
                (map_of (dictionaryTable d) word = None \<and>
                 word \<notin> set objectPrototypeProperties \<and>
                 (\<exists>compoundMin. flags d ''COMPOUNDMIN'' = Some compoundMin \<and>
                    lengthAtLeast (length word) compoundMin) \<and>
                 matchesSomeRule d word), d)"
  using assms(1,2)
  by (auto simp: checkExact_memory exactHit_def matchesCompoundRule_def list_ex_iff
           split: option.splits)

theorem checkExact_in_memory_witness:
  "loaded example_memory \<and> \<not> preCalculated example_memory \<and> decimalMinimum example_memory \<and>
   ascii ''the'' \<and> ascii ''only'' \<and> ascii ''dog'' \<and> ascii ''foobar'' \<and> ascii ''valueOf'' \<and>
   checkExact no_files example_memory ''the'' = Inr (True, example_memory) \<and>
   checkExact no_files example_memory ''only'' = Inr (False, example_memory) \<and>
   checkExact no_files example_memory ''dog'' = Inr (False, example_memory) \<and>
   checkExact no_files example_memory ''foobar'' = Inr (True, example_memory) \<and>
   checkExact no_files example_memory ''valueOf'' = Inr (False, example_memory)"
proof -
  have l: "loaded example_memory" and p: "\<not> preCalculated example_memory"
    and m: "decimalMinimum example_memory"
    by (simp_all add: example_eval initial_typo_def decimalMinimum_def code_unit_def)
  have a: "ascii ''the''" "ascii ''only''" "ascii ''dog''" "ascii ''foobar''" "ascii ''valueOf''"
    by (simp_all add: code_unit_def)
  show ?thesis
    using checkExact_in_memory[OF l p a(1) m, of no_files]
      checkExact_in_memory[OF l p a(2) m, of no_files]
      checkExact_in_memory[OF l p a(3) m, of no_files]
      checkExact_in_memory[OF l p a(4) m, of no_files]
      checkExact_in_memory[OF l p a(5) m, of no_files] l p m a
    by (simp add: query_eval string_eval example_eval upt_conv_Cons)
qed

text \<open>
  C4 (as the claim states it, refuted). The in-memory dictionary \<open>example_nomin\<close> sets
  no compound minimum. The unregistered word "foobar" matches the compound matcher, so
  the claim's condition holds (there is no minimum to meet), yet \<open>checkExact\<close> returns
  false: the code tries the matchers only when a minimum is configured.
\<close>

theorem checkExact_compound_without_minimum:
  "flags example_nomin ''COMPOUNDMIN'' = None \<and>
   map_of (dictionaryTable example_nomin) ''foobar'' = None \<and>
   matchesSomeRule example_nomin ''foobar'' \<and>
   checkExact no_files example_nomin ''foobar'' = Inr (False, example_nomin)"
  by (simp add: query_eval string_eval example_eval upt_conv_Cons)

text \<open>
  C4 (amended). For every loaded in-memory dictionary whose compound minimum, if it is
  configured, is a decimal numeral, and for every word of ASCII characters that is not
  registered and does not name a property that the table inherits from
  \<open>Object.prototype\<close>, \<open>checkExact\<close> accepts the word iff the compound minimum is
  configured, the word's length meets it, and the word matches at least one compiled
  compound matcher. In particular, with compound minimum 3 and a matcher compiled from a rule of two codes, an
  unregistered concatenation of a word tagged with the first code and a word tagged with
  the second, each of three letters or more, checks true.
\<close>

theorem compound_acceptance_in_memory:
  assumes "loaded d" and "\<not> preCalculated d" and "map_of (dictionaryTable d) word = None"
    and "word \<notin> set objectPrototypeProperties" and "ascii word" and "decimalMinimum d"
  shows "checkExact fs d word =
           Inr ((\<exists>compoundMin. flags d ''COMPOUNDMIN'' = Some compoundMin \<and>
                   lengthAtLeast (length word) compoundMin) \<and>
                matchesSomeRule d word, d) \<and>
         (flags d ''COMPOUNDMIN'' = Some (Str ''3'') \<and>
          compileCompoundRule (compoundRuleCodes d) [a, b] = Some rule \<and>
          rule \<in> set (compoundRules d) \<and>
          map_of (compoundRuleCodes d) [a] = Some ws1 \<and> w1 \<in> set ws1 \<and> 3 \<le> length w1 \<and>
          map_of (compoundRuleCodes d) [b] = Some ws2 \<and> w2 \<in> set ws2 \<and> 3 \<le> length w2 \<and>
          word = w1 @ w2
          \<longrightarrow> checkExact fs d word = Inr (True, d))"
proof (intro conjI impI)
  show g: "checkExact fs d word =
           Inr ((\<exists>compoundMin. flags d ''COMPOUNDMIN'' = Some compoundMin \<and>
                   lengthAtLeast (length word) compoundMin) \<and>
                matchesSomeRule d word, d)"
    using assms(1-4)
    by (auto simp: checkExact_memory exactHit_def matchesCompoundRule_def split: option.splits)
  assume s: "flags d ''COMPOUNDMIN'' = Some (Str ''3'') \<and>
          compileCompoundRule (compoundRuleCodes d) [a, b] = Some rule \<and>
          rule \<in> set (compoundRules d) \<and>
          map_of (compoundRuleCodes d) [a] = Some ws1 \<and> w1 \<in> set ws1 \<and> 3 \<le> length w1 \<and>
          map_of (compoundRuleCodes d) [b] = Some ws2 \<and> w2 \<in> set ws2 \<and> 3 \<le> length w2 \<and>
          word = w1 @ w2"
  then have "rule = [(Group ws1, Once), (Group ws2, Once)]"
    using compile_two_codes[of "compoundRuleCodes d" a ws1 b ws2 rule] by blast
  then have "regexp_matches rule word"
    using s matches_two_groups[of w1 ws1 w2 ws2] by blast
  then have m: "matchesSomeRule d word"
    using s by (auto simp: matchesSomeRule_def list_ex_iff)
  have "digitsValue 0 ''3'' = Some 3" by (simp add: code_unit_def)
  then have "lengthAtLeast (length word) (Str ''3'')" using s by simp
  then show "checkExact fs d word = Inr (True, d)" using g m s by simp
qed

theorem compound_acceptance_in_memory_witness:
  "loaded example_memory \<and> \<not> preCalculated example_memory \<and>
   map_of (dictionaryTable example_memory) ''foobar'' = None \<and>
   ''foobar'' \<notin> set objectPrototypeProperties \<and> ascii ''foobar'' \<and>
   decimalMinimum example_memory \<and>
   flags example_memory ''COMPOUNDMIN'' = Some (Str ''3'') \<and>
   compileCompoundRule (compoundRuleCodes example_memory) ''AB'' = Some example_rule \<and>
   checkExact no_files example_memory ''foobar'' = Inr (True, example_memory)"
proof -
  have l: "loaded example_memory" and p: "\<not> preCalculated example_memory"
    and u: "map_of (dictionaryTable example_memory) ''foobar'' = None"
    and f: "flags example_memory ''COMPOUNDMIN'' = Some (Str ''3'')"
    and n: "''foobar'' \<notin> set objectPrototypeProperties" and a: "ascii ''foobar''"
    and m: "decimalMinimum example_memory"
    by (simp_all add: example_eval initial_typo_def objectPrototypeProperties_def
          decimalMinimum_def code_unit_def)
  have c: "compileCompoundRule (compoundRuleCodes example_memory) ''AB'' = Some example_rule"
    by (simp add: example_eval initial_typo_def compileCompoundRule_def expressionTokens_def
          token_atom_def regexSpecial_def code_unit_def)
  have s: "flags example_memory ''COMPOUNDMIN'' = Some (Str ''3'') \<and>
          compileCompoundRule (compoundRuleCodes example_memory) ''AB'' = Some example_rule \<and>
          example_rule \<in> set (compoundRules example_memory) \<and>
          map_of (compoundRuleCodes example_memory) ''A'' = Some [''foo''] \<and>
          ''foo'' \<in> set [''foo''] \<and> 3 \<le> length ''foo'' \<and>
          map_of (compoundRuleCodes example_memory) ''B'' = Some [''bar''] \<and>
          ''bar'' \<in> set [''bar''] \<and> 3 \<le> length ''bar'' \<and> ''foobar'' = ''foo'' @ ''bar''"
    using c f by (simp add: example_eval initial_typo_def)
  show ?thesis
    using compound_acceptance_in_memory[OF l p u n a m, of no_files "CHR ''A''" "CHR ''B''"
        example_rule "[''foo'']" "''foo''" "[''bar'']" "''bar''"] s l p u f c n a m
    by blast
qed

section \<open>check and capitalization variants\<close>

text \<open>
  C2 (as the claim states it, refuted). In \<open>example_keepcase\<close> the word "Nasa" carries the
  keep-case flag and "nasa" is registered with no codes. For the upper-case input "NASA"
  the lower-cased variant "nasa" is not marked keep-case and is an exact hit, yet \<open>check\<close>
  returns false: it stops as soon as the capitalized variant "Nasa" is found to be
  marked keep-case.
\<close>

theorem check_keepcase_stops_early:
  "toUpperCase (trim ''NASA'') = trim ''NASA'' \<and>
   checkExact no_files example_keepcase ''NASA'' = Inr (False, example_keepcase) \<and>
   hasFlag no_files example_keepcase ''nasa'' ''KEEPCASE'' None = Inr (False, example_keepcase) \<and>
   checkExact no_files example_keepcase ''nasa'' = Inr (True, example_keepcase) \<and>
   check no_files example_keepcase ''NASA'' = Inr (False, example_keepcase)"
  by (simp add: query_eval string_eval example_eval)

text \<open>
  C2 (amended). For every loaded dictionary of either backend whose caches agree with
  its files and whose compound minimum, if it is configured, is a decimal numeral, and
  every input word of ASCII characters whose trimmed form is non-empty, entirely
  upper-case and not an exact hit: if the capitalized variant is marked keep-case, \<open>check\<close> returns
  false without trying any other variant; otherwise, provided the lower-cased variant
  is not marked keep-case, \<open>check\<close> returns true iff the capitalized variant is an exact
  hit, or the lower-cased variant is, or the variant with only the first letter lowered
  differs from the trimmed word, is not marked keep-case and is an exact hit. Here
  "exact hit" and "marked" are the answers of \<open>checkExact\<close> and \<open>hasFlag\<close>.
\<close>

theorem check_uppercase_variants:
  assumes "instance_ok fs d"
    and "trimmedWord = trim aWord" and "trimmedWord \<noteq> []"
    and "toUpperCase trimmedWord = trimmedWord" and "\<not> exactHit fs d trimmedWord"
    and "capitalizedWord = take 1 trimmedWord @ toLowerCase (drop 1 trimmedWord)"
    and "uncapitalizedWord = toLowerCase (take 1 trimmedWord) @ drop 1 trimmedWord"
    and "ascii aWord" and "decimalMinimum d"
  shows "(wordHasFlag fs d capitalizedWord ''KEEPCASE'' \<longrightarrow>
           (\<exists>d'. check fs d aWord = Inr (False, d') \<and> instance_ok fs d' \<and> same_dictionary d d')) \<and>
         (\<not> wordHasFlag fs d capitalizedWord ''KEEPCASE'' \<and>
          \<not> wordHasFlag fs d (toLowerCase trimmedWord) ''KEEPCASE'' \<longrightarrow>
           (\<exists>d'. check fs d aWord =
                   Inr (exactHit fs d capitalizedWord \<or>
                        exactHit fs d (toLowerCase trimmedWord) \<or>
                        (uncapitalizedWord \<noteq> trimmedWord \<and>
                         \<not> wordHasFlag fs d uncapitalizedWord ''KEEPCASE'' \<and>
                         exactHit fs d uncapitalizedWord), d') \<and>
                 instance_ok fs d' \<and> same_dictionary d d'))"
proof -
  obtain d' where d': "check fs d aWord = returns (checkValue fs d aWord) d'" "step fs d d'"
    using check_sem[OF assms(1)] by blast
  obtain c rest where t: "trim aWord = c # rest"
    using assms(2,3) by (cases "trim aWord") auto
  have ne: "aWord \<noteq> []" using assms(2,3) by (auto simp: trim_def)
  have u: "uncapitalizedWord = toLowerChar c # rest"
    using assms(2,7) by (simp add: t toLowerCase_def)
  have cp: "capitalizedWord = charAt0 (trim aWord) @ toLowerCase (drop 1 (trim aWord))"
    using assms(2,6) by (simp add: t charAt0_def)
  have "checkValue fs d aWord =
           Inr (if wordHasFlag fs d capitalizedWord ''KEEPCASE'' then False
                else exactHit fs d capitalizedWord \<or>
                     exactHit fs d (toLowerCase trimmedWord) \<or>
                     (uncapitalizedWord \<noteq> trimmedWord \<and>
                      \<not> wordHasFlag fs d uncapitalizedWord ''KEEPCASE'' \<and>
                      exactHit fs d uncapitalizedWord))"
    unfolding u cp using assms(2,4,5) ne
    by (simp add: checkValue_def Let_def uncapitalizedValue_def t)
  then show ?thesis using d' by (auto simp: returns_def step_def)
qed

lemma example_memory_ok: "instance_ok no_files example_memory"
  by (simp add: instance_ok_def example_eval initial_typo_def)

theorem check_uppercase_variants_witness:
  "instance_ok no_files example_memory \<and> decimalMinimum example_memory \<and> ascii '' THE '' \<and>
   ''THE'' = trim '' THE '' \<and> ''THE'' \<noteq> [] \<and>
   toUpperCase ''THE'' = ''THE'' \<and> \<not> exactHit no_files example_memory ''THE'' \<and>
   \<not> wordHasFlag no_files example_memory ''The'' ''KEEPCASE'' \<and>
   \<not> wordHasFlag no_files example_memory ''the'' ''KEEPCASE'' \<and>
   answer (check no_files example_memory '' THE '') = Inr True"
proof -
  have h: "''THE'' = trim '' THE ''" "''THE'' \<noteq> []" "toUpperCase ''THE'' = ''THE''"
    "\<not> exactHit no_files example_memory ''THE''"
    "''The'' = take 1 ''THE'' @ toLowerCase (drop 1 ''THE'')"
    "''tHE'' = toLowerCase (take 1 ''THE'') @ drop 1 ''THE''"
    by (simp_all add: string_eval exactHit_def query_eval example_eval upt_conv_Cons)
  have l: "toLowerCase ''THE'' = ''the''" by (simp add: string_eval)
  have k: "\<not> wordHasFlag no_files example_memory ''The'' ''KEEPCASE''"
    "\<not> wordHasFlag no_files example_memory ''the'' ''KEEPCASE''"
    "exactHit no_files example_memory ''the''"
    by (simp_all add: exactHit_def wordHasFlag_def query_eval example_eval)
  have a: "ascii '' THE ''" and m: "decimalMinimum example_memory"
    by (simp_all add: example_eval initial_typo_def decimalMinimum_def code_unit_def)
  from check_uppercase_variants[OF example_memory_ok h a m]
  have "\<not> wordHasFlag no_files example_memory ''The'' ''KEEPCASE'' \<and>
        \<not> wordHasFlag no_files example_memory ''the'' ''KEEPCASE'' \<longrightarrow>
           (\<exists>d'. check no_files example_memory '' THE '' =
                   Inr (exactHit no_files example_memory ''The'' \<or>
                        exactHit no_files example_memory ''the'' \<or>
                        (''tHE'' \<noteq> ''THE'' \<and>
                         \<not> wordHasFlag no_files example_memory ''tHE'' ''KEEPCASE'' \<and>
                         exactHit no_files example_memory ''tHE''), d') \<and>
                 instance_ok no_files d' \<and> same_dictionary example_memory d')"
    unfolding l by (rule conjunct2)
  then obtain d' where "check no_files example_memory '' THE '' = Inr (True, d')"
    using k by auto
  then have "answer (check no_files example_memory '' THE '') = Inr True"
    by (simp add: answer_def)
  then show ?thesis using example_memory_ok h(1-4) k(1,2) a m by blast
qed

text \<open>
  The scenario of the specification: with "NASA" tagged keep-case, \<open>check\<close> accepts
  "NASA" and rejects "Nasa".
\<close>

lemma scenario_keepcase:
  "check no_files example_memory ''NASA'' = Inr (True, example_memory)"
  "check no_files example_memory ''Nasa'' = Inr (False, example_memory)"
  by (simp_all add: query_eval string_eval example_eval upt_conv_Cons)

section \<open>Errors\<close>

lemma not_loaded_raises:
  assumes "\<not> loaded d"
  shows "check fs d word = Inl notLoaded" "checkExact fs d word = Inl notLoaded"
    "hasFlag fs d word flag wordFlags = Inl notLoaded"
    "suggest localeCompare fs d word limit = Inl notLoaded"
  using assms by (simp_all add: check_def checkExact_def hasFlag_def suggest_def)

lemma checkExact_never_raises:
  assumes "instance_ok fs d"
  shows "\<exists>found d'. checkExact fs d word = Inr (found, d')"
  using checkExact_sem[OF assms] by blast

text \<open>
  C7 (failing input). The dictionary \<open>example_memory\<close> is loaded. The input " " (one
  space) is not empty, so the guard for empty input does not fire; its trimmed form is
  empty, none of the variants is a hit, and reading the first character of the empty
  trimmed word to lower it raises a TypeError instead of reporting the miss as false.
\<close>

theorem check_blank_word_raises:
  "loaded example_memory \<and> check no_files example_memory '' '' = Inl TypeError"
  by (simp add: query_eval string_eval example_eval upt_conv_Cons)

section \<open>The two backends\<close>

text \<open>
  C1 (failing input). The in-memory dictionary \<open>example_memory\<close> registers "only" with
  the single code set ["O"], and "O" is its only-in-compound flag. Exported, written
  to files and imported as pre-calculated, the paged dictionary is
  \<open>example_paged_typo\<close>. \<open>checkExact\<close> on "only" is false in memory and true on the paged
  backend, which never looks at the word's codes. Conversely, the unregistered compound
  "foobar" is accepted in memory and rejected by the paged backend, whose filter turns
  the word away before the compound matchers are tried.
\<close>

theorem backends_disagree:
  "new_Typo_preCalculated example_files ''en'' ''dicts'' 2 0 = Inr example_paged_typo \<and>
   answer (checkExact no_files example_memory ''only'') = Inr False \<and>
   answer (checkExact example_files example_paged_typo ''only'') = Inr True \<and>
   answer (checkExact no_files example_memory ''foobar'') = Inr True \<and>
   answer (checkExact example_files example_paged_typo ''foobar'') = Inr False"
proof -
  have "new_Typo_preCalculated example_files ''en'' ''dicts'' 2 0 = Inr example_paged_typo"
    using example_paged_eq by (simp add: example_paged_def)
  moreover have "answer (checkExact no_files example_memory ''only'') = Inr False"
    "answer (checkExact no_files example_memory ''foobar'') = Inr True"
    by (simp_all add: query_eval string_eval example_eval upt_conv_Cons)
  moreover have "answer (checkExact example_files example_paged_typo ''only'') = Inr True"
    by (simp add: query_eval paged_eval string_eval example_paged_typo_def example_rule_def
          example_files_partitions upt_conv_Cons)
  moreover have "answer (checkExact example_files example_paged_typo ''foobar'') = Inr False"
    by (simp add: query_eval paged_eval string_eval example_paged_typo_def example_rule_def
          example_files_partitions upt_conv_Cons)
  ultimately show ?thesis by blast
qed

section \<open>The suggestion list\<close>

lemma assemble_bounded:
  assumes "assemble fs scheme cs i working_limit rv d = Inr (xs, d')" "i \<le> working_limit"
  shows "length xs \<le> length rv + (working_limit - i)"
  using assms
proof (induction cs arbitrary: i working_limit rv d)
  case Nil
  then show ?case by simp
next
  case (Cons c cs)
  show ?case
  proof (cases "i < working_limit")
    case False
    then show ?thesis using Cons.prems by simp
  next
    case True
    let ?s = "recase scheme (fst c)"
    obtain noSuggest d1 where h: "hasFlag fs d ?s ''NOSUGGEST'' None = Inr (noSuggest, d1)"
      using Cons.prems(1) True by (auto simp: Let_def split: sum.splits)
    show ?thesis
    proof (cases "\<not> noSuggest \<and> ?s \<notin> set rv")
      case push: True
      then have "assemble fs scheme cs (Suc i) working_limit (rv @ [?s]) d1 = Inr (xs, d')"
        using Cons.prems(1) True h by (simp add: Let_def)
      from Cons.IH[OF this] True show ?thesis by simp
    next
      case skip: False
      then have "assemble fs scheme cs (Suc i) (Suc working_limit) rv d1 = Inr (xs, d')"
        using Cons.prems(1) True h by (auto simp: Let_def)
      from Cons.IH[OF this] True show ?thesis by simp
    qed
  qed
qed

lemma assemble_distinct:
  assumes "assemble fs scheme cs i working_limit rv d = Inr (xs, d')" "distinct rv"
  shows "distinct xs"
  using assms
proof (induction cs arbitrary: i working_limit rv d)
  case Nil
  then show ?case by simp
next
  case (Cons c cs)
  show ?case
  proof (cases "i < working_limit")
    case False
    then show ?thesis using Cons.prems by simp
  next
    case True
    let ?s = "recase scheme (fst c)"
    obtain noSuggest d1 where h: "hasFlag fs d ?s ''NOSUGGEST'' None = Inr (noSuggest, d1)"
      using Cons.prems(1) True by (auto simp: Let_def split: sum.splits)
    show ?thesis
    proof (cases "\<not> noSuggest \<and> ?s \<notin> set rv")
      case push: True
      then have "assemble fs scheme cs (Suc i) working_limit (rv @ [?s]) d1 = Inr (xs, d')"
        using Cons.prems(1) True h by (simp add: Let_def)
      from Cons.IH[OF this] push Cons.prems(2) show ?thesis by simp
    next
      case skip: False
      then have "assemble fs scheme cs (Suc i) (Suc working_limit) rv d1 = Inr (xs, d')"
        using Cons.prems(1) True h by (auto simp: Let_def)
      from Cons.IH[OF this] Cons.prems(2) show ?thesis by simp
    qed
  qed
qed

lemma correct_bounded_distinct:
  assumes "correct localeCompare fs d word limit = Inr (xs, d')"
  shows "length xs \<le> limit \<and> distinct xs"
proof -
  obtain sc d4 where
    "assemble fs (capitalization_scheme word) sc 0 limit [] d4 = Inr (xs, d')"
    using assms by (auto simp: correct_def split: sum.splits)
  then show ?thesis
    using assemble_bounded[of fs _ sc 0 limit "[]" d4 xs d']
      assemble_distinct[of fs _ sc 0 limit "[]" d4 xs d'] by simp
qed


section \<open>Queries change nothing but the caches\<close>

lemma loadPartition_frame:
  "loadPartition fs d prefix = Inr (words, d') \<Longrightarrow> same_dictionary d d'"
  by (auto simp: loadPartition_def split: if_splits option.splits prod.splits json_file.splits)

lemma hasFlag_frame:
  "hasFlag fs d word flag wordFlags = Inr (b, d') \<Longrightarrow> same_dictionary d d'"
  by (auto simp: hasFlag_def Let_def dest: loadPartition_frame
           split: if_splits option.splits sum.splits prod.splits)

lemma checkPreCalculated_frame:
  assumes "checkPreCalculated fs d word = Inr (b, d')"
  shows "same_dictionary d d'"
proof (cases "has_lru (notFoundCache d) word")
  case True
  then show ?thesis using assms by (simp add: checkPreCalculated_def)
next
  case False
  then obtain bf where bf: "bloomFilter d = Some bf"
    using assms by (auto simp: checkPreCalculated_def split: option.splits)
  show ?thesis
  proof (cases "mightContain bf word")
    case False
    then show ?thesis
      using assms bf \<open>\<not> has_lru (notFoundCache d) word\<close> by (auto simp: checkPreCalculated_def)
  next
    case True
    then obtain words d1 where l: "loadPartition fs d (getPartitionPrefix word) = Inr (words, d1)"
      using assms bf \<open>\<not> has_lru (notFoundCache d) word\<close>
      by (auto simp: checkPreCalculated_def Let_def split: sum.splits)
    have s1: "same_dictionary d d1" by (rule loadPartition_frame[OF l])
    have "d' = d1 \<or> d' = d1\<lparr>notFoundCache := add_lru (notFoundCache d1) word\<rparr>"
      using assms bf True l \<open>\<not> has_lru (notFoundCache d) word\<close>
      by (auto simp: checkPreCalculated_def Let_def split: if_splits)
    then show ?thesis using s1 same_dictionary_trans[OF s1, of "d1\<lparr>notFoundCache := add_lru (notFoundCache d1) word\<rparr>"]
      by auto
  qed
qed

lemma checkExact_codes_frame:
  "checkExact_codes fs d word ruleCodes = Inr (b, d') \<Longrightarrow> same_dictionary d d'"
proof (induction ruleCodes arbitrary: d)
  case Nil
  then show ?case by simp
next
  case (Cons codes rest)
  then obtain o1 d1 where h: "hasFlag fs d word ''ONLYINCOMPOUND'' (Some codes) = Inr (o1, d1)"
    by (auto split: sum.splits)
  have s1: "same_dictionary d d1" by (rule hasFlag_frame[OF h])
  show ?case
  proof (cases o1)
    case True
    then have "checkExact_codes fs d1 word rest = Inr (b, d')" using Cons.prems h by simp
    from Cons.IH[OF this] s1 show ?thesis by (rule same_dictionary_trans[rotated])
  next
    case False
    then show ?thesis using Cons.prems h s1 by simp
  qed
qed

lemma checkExact_frame:
  "checkExact fs d word = Inr (b, d') \<Longrightarrow> same_dictionary d d'"
  by (auto simp: checkExact_def dest: checkPreCalculated_frame checkExact_codes_frame
           split: if_splits option.splits)

lemma check_uncapitalized_frame:
  assumes "check_uncapitalized fs d t = Inr (b, d')"
  shows "same_dictionary d d'"
proof (cases t)
  case Nil
  then show ?thesis using assms by (simp add: check_uncapitalized_def)
next
  case (Cons c rest)
  show ?thesis
  proof (cases "toLowerChar c # rest = t")
    case True
    then show ?thesis using assms Cons by (simp add: check_uncapitalized_def)
  next
    case False
    then obtain kc d1 where h: "hasFlag fs d (toLowerChar c # rest) ''KEEPCASE'' None = Inr (kc, d1)"
      using assms Cons by (auto simp: check_uncapitalized_def Let_def split: sum.splits)
    have s1: "same_dictionary d d1" by (rule hasFlag_frame[OF h])
    show ?thesis
    proof (cases kc)
      case True
      then show ?thesis using assms Cons False h s1 by (simp add: check_uncapitalized_def)
    next
      case nk: False
      then obtain hit d2 where e: "checkExact fs d1 (toLowerChar c # rest) = Inr (hit, d2)"
        using assms Cons False h by (auto simp: check_uncapitalized_def Let_def split: sum.splits)
      then have "d' = d2"
        using assms Cons False h nk by (auto simp: check_uncapitalized_def Let_def split: if_splits)
      then show ?thesis using same_dictionary_trans[OF s1 checkExact_frame[OF e] ] by simp
    qed
  qed
qed

lemma check_uppercase_frame:
  assumes "check_uppercase fs d t = Inr (b, d')"
  shows "same_dictionary d d'"
proof -
  let ?cap = "charAt0 t @ toLowerCase (drop 1 t)"
  obtain kc d1 where h: "hasFlag fs d ?cap ''KEEPCASE'' None = Inr (kc, d1)"
    using assms by (auto simp: check_uppercase_def Let_def split: sum.splits)
  have s1: "same_dictionary d d1" by (rule hasFlag_frame[OF h])
  show ?thesis
  proof (cases kc)
    case True
    then show ?thesis using assms h s1 by (simp add: check_uppercase_def)
  next
    case nk: False
    then obtain hit d2 where e: "checkExact fs d1 ?cap = Inr (hit, d2)"
      using assms h by (auto simp: check_uppercase_def Let_def split: sum.splits)
    have s2: "same_dictionary d d2" by (rule same_dictionary_trans[OF s1 checkExact_frame[OF e] ])
    show ?thesis
    proof (cases hit)
      case True
      then show ?thesis using assms h nk e s2 by (simp add: check_uppercase_def)
    next
      case False
      then obtain hit' d3 where e': "checkExact fs d2 (toLowerCase t) = Inr (hit', d3)"
        using assms h nk e by (auto simp: check_uppercase_def Let_def split: sum.splits)
      then have "d' = d3"
        using assms h nk e False by (auto simp: check_uppercase_def Let_def split: if_splits)
      then show ?thesis using same_dictionary_trans[OF s2 checkExact_frame[OF e'] ] by simp
    qed
  qed
qed

lemma check_frame:
  assumes "check fs d aWord = Inr (b, d')"
  shows "same_dictionary d d'"
proof (cases "aWord = []")
  case True
  then show ?thesis using assms by (auto simp: check_def split: if_splits)
next
  case False
  have l: "loaded d" using assms by (auto simp: check_def split: if_splits)
  obtain hit d1 where e: "checkExact fs d (trim aWord) = Inr (hit, d1)"
    using assms False l by (auto simp: check_def Let_def split: sum.splits)
  have s1: "same_dictionary d d1" by (rule checkExact_frame[OF e])
  show ?thesis
  proof (cases hit)
    case True
    then show ?thesis using assms False l e s1 by (simp add: check_def Let_def)
  next
    case miss: False
    show ?thesis
    proof (cases "toUpperCase (trim aWord) = trim aWord")
      case False
      then have "check_uncapitalized fs d1 (trim aWord) = Inr (b, d')"
        using assms \<open>aWord \<noteq> []\<close> l e miss by (simp add: check_def Let_def)
      then show ?thesis using same_dictionary_trans[OF s1 check_uncapitalized_frame] by blast
    next
      case True
      then obtain r d2 where u: "check_uppercase fs d1 (trim aWord) = Inr (r, d2)"
        using assms \<open>aWord \<noteq> []\<close> l e miss by (auto simp: check_def Let_def split: sum.splits)
      have s2: "same_dictionary d d2"
        by (rule same_dictionary_trans[OF s1 check_uppercase_frame[OF u] ])
      show ?thesis
      proof (cases r)
        case (Some answer)
        then show ?thesis using assms \<open>aWord \<noteq> []\<close> l e miss True u s2 by (simp add: check_def Let_def)
      next
        case None
        then have "check_uncapitalized fs d2 (trim aWord) = Inr (b, d')"
          using assms \<open>aWord \<noteq> []\<close> l e miss True u by (simp add: check_def Let_def)
        then show ?thesis using same_dictionary_trans[OF s2 check_uncapitalized_frame] by blast
      qed
    qed
  qed
qed

lemma tryReplacements_frame:
  "tryReplacements fs d word table = Inr (r, d') \<Longrightarrow> same_dictionary d d'"
proof (induction table arbitrary: d)
  case Nil
  then show ?case by simp
next
  case (Cons entry rest)
  show ?case
  proof (cases "indexOf word (fst entry) \<noteq> None")
    case False
    then show ?thesis using Cons by simp
  next
    case True
    then obtain ok d1 where c: "check fs d (replaceFirst word (fst entry) (snd entry)) = Inr (ok, d1)"
      using Cons.prems by (auto simp: Let_def split: sum.splits)
    have s1: "same_dictionary d d1" by (rule check_frame[OF c])
    show ?thesis
    proof (cases ok)
      case True
      then show ?thesis using Cons.prems \<open>indexOf word (fst entry) \<noteq> None\<close> c s1 by (simp add: Let_def)
    next
      case False
      then have "tryReplacements fs d1 word rest = Inr (r, d')"
        using Cons.prems True c by (simp add: Let_def)
      from Cons.IH[OF this] s1 show ?thesis by (rule same_dictionary_trans[rotated])
    qed
  qed
qed

lemma recordEdits_frame:
  "recordEdits fs known_only es rv d = Inr (rv', d') \<Longrightarrow> same_dictionary d d'"
proof (induction es arbitrary: rv d)
  case Nil
  then show ?case by simp
next
  case (Cons edit es)
  show ?case
  proof (cases known_only)
    case False
    then show ?thesis using Cons by simp
  next
    case True
    then obtain ok d1 where c: "check fs d edit = Inr (ok, d1)"
      using Cons.prems by (auto split: sum.splits)
    then have "recordEdits fs known_only es (if ok then addWeight edit 1 rv else rv) d1 = Inr (rv', d')"
      using Cons.prems True by simp
    from Cons.IH[OF this] check_frame[OF c] show ?thesis by (rule same_dictionary_trans[rotated])
  qed
qed

lemma addKnownEdits_frame:
  "addKnownEdits fs ed1 ws wc d = Inr (wc', d') \<Longrightarrow> same_dictionary d d'"
proof (induction ws arbitrary: wc d)
  case Nil
  then show ?case by simp
next
  case (Cons w ws)
  then obtain ok d1 where c: "check fs d w = Inr (ok, d1)"
    by (auto split: sum.splits)
  then obtain wc1 where "addKnownEdits fs ed1 ws wc1 d1 = Inr (wc', d')"
    using Cons.prems by (cases ok) auto
  from Cons.IH[OF this] check_frame[OF c] show ?case by (rule same_dictionary_trans[rotated])
qed

lemma prioritize_frame:
  "prioritize fs wc ks d = Inr (entries, d') \<Longrightarrow> same_dictionary d d'"
proof (induction ks arbitrary: entries d)
  case Nil
  then show ?case by simp
next
  case (Cons k ks)
  then obtain p d1 where h: "hasFlag fs d k ''PRIORITYSUGGEST'' None = Inr (p, d1)"
    by (auto split: sum.splits)
  then obtain entries1 where "prioritize fs wc ks d1 = Inr (entries1, d')"
    using Cons.prems by (auto simp: Let_def split: sum.splits)
  from Cons.IH[OF this] hasFlag_frame[OF h] show ?case by (rule same_dictionary_trans[rotated])
qed

lemma assemble_frame:
  "assemble fs scheme cs i wl rv d = Inr (xs, d') \<Longrightarrow> same_dictionary d d'"
proof (induction cs arbitrary: i wl rv d)
  case Nil
  then show ?case by simp
next
  case (Cons c cs)
  show ?case
  proof (cases "i < wl")
    case False
    then show ?thesis using Cons.prems by simp
  next
    case True
    then obtain ns d1 where h: "hasFlag fs d (recase scheme (fst c)) ''NOSUGGEST'' None = Inr (ns, d1)"
      using Cons.prems by (auto simp: Let_def split: sum.splits)
    then obtain i' wl' rv' where "assemble fs scheme cs i' wl' rv' d1 = Inr (xs, d')"
      using Cons.prems True by (auto simp: Let_def split: if_splits)
    from Cons.IH[OF this] hasFlag_frame[OF h] show ?thesis by (rule same_dictionary_trans[rotated])
  qed
qed

lemma correct_frame:
  assumes "correct localeCompare fs d word limit = Inr (xs, d')"
  shows "same_dictionary d d'"
proof -
  obtain ed1 d1 ed2 d2 wc d3 sc d4 where
    a: "edits1 fs d [word] False = Inr (ed1, d1)"
    and b: "edits1 fs d1 (ownKeys ed1) True = Inr (ed2, d2)"
    and c: "addKnownEdits fs ed1 (ownKeys ed1) ed2 d2 = Inr (wc, d3)"
    and p: "prioritize fs wc (ownKeys wc) d3 = Inr (sc, d4)"
    and e: "assemble fs (capitalization_scheme word) (sortCorrections localeCompare sc) 0 limit [] d4
              = Inr (xs, d')"
    using assms by (auto simp: correct_def split: sum.splits)
  have "same_dictionary d d1" using a by (auto simp: edits1_def dest: recordEdits_frame)
  moreover have "same_dictionary d1 d2" using b by (auto simp: edits1_def dest: recordEdits_frame)
  moreover have "same_dictionary d2 d3" by (rule addKnownEdits_frame[OF c])
  moreover have "same_dictionary d3 d4" by (rule prioritize_frame[OF p])
  moreover have "same_dictionary d4 d'" by (rule assemble_frame[OF e])
  ultimately show ?thesis by (blast intro: same_dictionary_trans)
qed


lemma memo_distinct_same:
  "same_dictionary d d' \<Longrightarrow> memo_distinct d' = memo_distinct d"
  by (simp add: memo_distinct_def same_dictionary_fields)

text \<open>
  C10. For every positive limit \<open>k\<close> and every dictionary whose memo holds only
  duplicate-free lists (as every memo written by \<open>suggest\<close> does), a call of \<open>suggest\<close>
  that returns gives a list of at most \<open>k\<close> strings without duplicates, whether it is
  served from the memo, is empty because the word is correct, comes from the replacement
  table, or is freshly computed; and the memo it leaves again holds only duplicate-free
  lists.
\<close>

theorem suggest_bounded_distinct:
  assumes "0 < k" and "memo_distinct d"
    and "suggest localeCompare fs d word k = Inr (xs, d')"
  shows "length xs \<le> k \<and> distinct xs \<and> memo_distinct d'"
proof -
  have l: "loaded d" using assms(3) by (auto simp: suggest_def split: if_splits)
  show ?thesis
  proof (cases "case memoized d word of
                  Some m \<Rightarrow> k \<le> memo_limit m \<or> length (memo_suggestions m) < memo_limit m
                | None \<Rightarrow> False")
    case True
    then obtain m where m: "memoized d word = Some m"
      "k \<le> memo_limit m \<or> length (memo_suggestions m) < memo_limit m"
      by (auto split: option.splits)
    then have "xs = take k (memo_suggestions m)" "d' = d"
      using assms(1,3) l by (auto simp: suggest_def Let_def)
    moreover have "distinct (memo_suggestions m)"
      using assms(2) m(1) by (auto simp: memo_distinct_def split: option.splits dest: spec[of _ word])
    ultimately show ?thesis using assms(2) by simp
  next
    case False
    then have nc: "(case memoized d word of
                  Some m \<Rightarrow>
                    if k \<le> memo_limit m \<or> length (memo_suggestions m) < memo_limit m
                    then Some (take k (memo_suggestions m)) else None
                | None \<Rightarrow> None) = None"
      by (auto split: option.splits)
    obtain ok d1 where c: "check fs d word = Inr (ok, d1)"
      using assms(1,3) l nc by (auto simp: suggest_def Let_def split: sum.splits)
    have s1: "same_dictionary d d1" by (rule check_frame[OF c])
    show ?thesis
    proof (cases ok)
      case True
      then have "xs = []" "d' = d1"
        using assms(1,3) l nc c by (auto simp: suggest_def Let_def)
      then show ?thesis using assms(2) memo_distinct_same[OF s1] by simp
    next
      case wrong: False
      obtain r d2 where t: "tryReplacements fs d1 word (replacementTable d1) = Inr (r, d2)"
        using assms(1,3) l nc c wrong by (auto simp: suggest_def Let_def split: sum.splits)
      have s2: "same_dictionary d d2"
        by (rule same_dictionary_trans[OF s1 tryReplacements_frame[OF t] ])
      show ?thesis
      proof (cases r)
        case (Some correctedWord)
        then have "xs = [correctedWord]" "d' = d2"
          using assms(1,3) l nc c wrong t by (auto simp: suggest_def Let_def)
        then show ?thesis using assms(1,2) memo_distinct_same[OF s2] by simp
      next
        case None
        let ?d3 = "if alphabet d2 = [] then d2\<lparr>alphabet := defaultAlphabet d2\<rparr> else d2"
        obtain ys d4 where co: "correct localeCompare fs ?d3 word k = Inr (ys, d4)"
          using assms(1,3) l nc c wrong t None
          by (auto simp: suggest_def Let_def split: sum.splits)
        then have r: "xs = ys"
          "d' = d4\<lparr>memoized := (memoized d4)(word \<mapsto> \<lparr>memo_suggestions = ys, memo_limit = k\<rparr>)\<rparr>"
          using assms(1,3) l nc c wrong t None by (auto simp: suggest_def Let_def)
        have "memoized d4 = memoized ?d3"
          using correct_frame[OF co] by (simp add: same_dictionary_fields)
        also have "\<dots> = memoized d" using s2 by (simp add: same_dictionary_fields)
        finally have m4: "memoized d4 = memoized d" .
        have bd: "length ys \<le> k \<and> distinct ys" by (rule correct_bounded_distinct[OF co])
        then have "memo_distinct d'"
          using assms(2) by (simp add: r(2) memo_distinct_def m4)
        then show ?thesis using bd r(1) by simp
      qed
    qed
  qed
qed

lemmas suggest_eval = suggest_def correct_def edits1_def editsOfWord_def editsAt_def
  capitalization_scheme_def recase_def sortCorrections_def sort_by_def sorter_def
  ownKeys_def isArrayIndex_def indexValue_def isDigit_def replaceFirst_def

theorem suggest_bounded_distinct_witness:
  "0 < (1::nat) \<and> memo_distinct example_memoized \<and>
   suggest compareStrings no_files example_memoized ''fop'' 1 = Inr ([''foo''], example_memoized) \<and>
   length [''foo''] \<le> (1::nat) \<and> distinct [''foo''] \<and>
   0 < (5::nat) \<and> memo_distinct example_memory \<and>
   suggest compareStrings no_files example_memory ''teh'' 5 = Inr ([''the''], example_memory) \<and>
   length [''the''] \<le> (5::nat) \<and>
   suggest compareStrings no_files example_memory ''the'' 5 = Inr ([], example_memory)"
proof -
  have m1: "memo_distinct example_memoized" and m2: "memo_distinct example_memory"
    by (simp_all add: memo_distinct_def example_memoized_def example_eval initial_typo_def)
  have a: "suggest compareStrings no_files example_memoized ''fop'' 1 = Inr ([''foo''], example_memoized)"
    by (simp add: suggest_def example_memoized_def example_eval initial_typo_def)
  have b: "suggest compareStrings no_files example_memory ''teh'' 5 = Inr ([''the''], example_memory)"
    by (simp add: suggest_eval query_eval string_eval example_eval upt_conv_Cons)
  have c: "suggest compareStrings no_files example_memory ''the'' 5 = Inr ([], example_memory)"
    by (simp add: suggest_eval query_eval string_eval example_eval upt_conv_Cons)
  show ?thesis
    using suggest_bounded_distinct[OF _ m1 a] suggest_bounded_distinct[OF _ m2 b]
      suggest_bounded_distinct[OF _ m2 c] m1 m2 a b c
    by simp
qed


section \<open>Ranking of the candidates\<close>

lemma set_insert_by [simp]: "set (insert_by cmp x xs) = insert x (set xs)"
  by (induction xs) auto

lemma length_insert_by [simp]: "length (insert_by cmp x xs) = Suc (length xs)"
  by (induction xs) auto

lemma set_sort_by [simp]: "set (sort_by cmp xs) = set xs"
  by (induction xs) (simp_all add: sort_by_def)

lemma length_sort_by [simp]: "length (sort_by cmp xs) = length xs"
  by (induction xs) (simp_all add: sort_by_def)






lemma sortCorrections_same [simp]:
  "set (sortCorrections lc entries) = set entries"
  "length (sortCorrections lc entries) = length entries"
  by (simp_all add: sortCorrections_def)










section \<open>The weights that correct accumulates\<close>

lemma weightOf_Nil [simp]: "weightOf [] k = 0"
  by (simp add: weightOf_def)








lemma set_ownKeys [simp]: "set (ownKeys obj) = set (map fst obj)"
  by (auto simp: ownKeys_def)
























section \<open>The memo of suggest\<close>














lemma agree_Inr:
  "instance_ok fs d \<Longrightarrow> instance_ok fs d' \<Longrightarrow> same_contents d d' \<Longrightarrow>
   agree fs (Inr (x, d)) (Inr (x, d'))"
  by (simp add: agree_def)

lemma agree_Inl: "agree fs (Inl err) (Inl err)"
  by (simp add: agree_def)



















lemma same_contents_sym: "same_contents d e \<Longrightarrow> same_contents e d"
  by (cases d; cases e) (simp add: same_contents_def)


lemma defaultAlphabet_flags: "flags e = flags d \<Longrightarrow> defaultAlphabet e = defaultAlphabet d"
  by (simp only: defaultAlphabet_def)










lemma usedAlphabet_set: "usedAlphabet (d\<lparr>alphabet := usedAlphabet d\<rparr>) = usedAlphabet d"
proof -
  have "defaultAlphabet (d\<lparr>alphabet := usedAlphabet d\<rparr>) = defaultAlphabet d"
    by (rule defaultAlphabet_flags) simp
  then show ?thesis by (auto simp: usedAlphabet_def)
qed





end
